theory Spec2Isabelle
  imports Complex_Main
begin

section \<open>The WebSocket client\<close>

text \<open>
  Class \<open>WebSocketClient\<close>: src/lib/api.ts, lines 237 to 357 (the module the hooks
  import as lib/websocket).

  The client object is a record of its private fields. The browser objects the class
  acts on are part of the same state: every \<open>WebSocket\<close> object created so far
  (\<open>sockets\<close>, in creation order, each with its \<open>readyState\<close>), the delays handed
  to \<open>setTimeout\<close> so far (\<open>timeouts\<close>) with the number of them that have already
  fired (\<open>fired\<close>), and the running \<open>setInterval\<close> timers (\<open>intervals\<close>).
  \<open>this.ws\<close> is an index into \<open>sockets\<close>. The fields \<open>maxReconnectAttempts\<close> and
  \<open>reconnectDelay\<close> are never assigned after their initialisers, so they are constants.
  The handler set is a JavaScript \<open>Set\<close>: a duplicate-free collection iterated in
  insertion order, here a list.
\<close>

datatype ReadyState = CONNECTING | OPEN | CLOSING | CLOSED

record 'h WebSocketClient =
  ws :: "nat option"
  reconnectAttempts :: nat
  messageHandlers :: "'h list"
  pingInterval :: "nat option"
  isConnecting :: bool
  user :: string
  sockets :: "ReadyState list"
  timeouts :: "nat list"
  fired :: nat
  intervals :: "nat list"
  intervalsCreated :: nat

definition maxReconnectAttempts :: nat where
  "maxReconnectAttempts = 10"

definition reconnectDelay :: nat where
  "reconnectDelay = 1000"

definition readyState :: "'h WebSocketClient \<Rightarrow> ReadyState option" where
  "readyState c =
     (case ws c of
        None \<Rightarrow> None
      | Some i \<Rightarrow> if i < length (sockets c) then Some (sockets c ! i) else None)"

definition attemptReconnect :: "'h WebSocketClient \<Rightarrow> 'h WebSocketClient" where
  "attemptReconnect c =
     (if reconnectAttempts c \<ge> maxReconnectAttempts then c
      else c\<lparr>timeouts := timeouts c @ [reconnectDelay * 2 ^ reconnectAttempts c],
             reconnectAttempts := reconnectAttempts c + 1\<rparr>)"

definition startPing :: "'h WebSocketClient \<Rightarrow> 'h WebSocketClient" where
  "startPing c =
     (let i = Suc (intervalsCreated c)
      in c\<lparr>pingInterval := Some i, intervals := intervals c @ [i], intervalsCreated := i\<rparr>)"

definition stopPing :: "'h WebSocketClient \<Rightarrow> 'h WebSocketClient" where
  "stopPing c =
     (case pingInterval c of
        None \<Rightarrow> c
      | Some i \<Rightarrow> c\<lparr>intervals := removeAll i (intervals c), pingInterval := None\<rparr>)"

text \<open>
  \<open>connect\<close>: the flag \<open>ctor_throws\<close> says whether \<open>new WebSocket(url)\<close> throws
  (the \<open>catch\<close> branch). On success the new socket starts in state CONNECTING and
  the four event handlers below are attached to it.
\<close>

definition connect :: "string \<Rightarrow> bool \<Rightarrow> 'h WebSocketClient \<Rightarrow> 'h WebSocketClient" where
  "connect u ctor_throws c =
     (if readyState c = Some OPEN \<or> isConnecting c then c
      else
        let c1 = c\<lparr>isConnecting := True, user := u\<rparr>
        in if ctor_throws then attemptReconnect (c1\<lparr>isConnecting := False\<rparr>)
           else c1\<lparr>ws := Some (length (sockets c1)), sockets := sockets c1 @ [CONNECTING]\<rparr>)"

definition onopen :: "'h WebSocketClient \<Rightarrow> 'h WebSocketClient" where
  "onopen c = startPing (c\<lparr>isConnecting := False, reconnectAttempts := 0\<rparr>)"

definition onclose :: "'h WebSocketClient \<Rightarrow> 'h WebSocketClient" where
  "onclose c = attemptReconnect (stopPing (c\<lparr>isConnecting := False\<rparr>))"

definition onerror :: "'h WebSocketClient \<Rightarrow> 'h WebSocketClient" where
  "onerror c = c\<lparr>isConnecting := False\<rparr>"

text \<open>\<open>ws.close()\<close> moves a socket that is connecting or open to CLOSING.\<close>

definition socket_close :: "nat \<Rightarrow> ReadyState list \<Rightarrow> ReadyState list" where
  "socket_close i ss =
     (if i < length ss \<and> (ss ! i = CONNECTING \<or> ss ! i = OPEN) then ss[i := CLOSING] else ss)"

definition disconnect :: "'h WebSocketClient \<Rightarrow> 'h WebSocketClient" where
  "disconnect c =
     (let c1 = stopPing c
      in case ws c1 of
           None \<Rightarrow> c1
         | Some i \<Rightarrow> c1\<lparr>sockets := socket_close i (sockets c1), ws := None\<rparr>)"

text \<open>
  \<open>subscribe\<close> returns the new state and the unsubscribe closure. \<open>Set.add\<close> keeps a
  handler that is already a member where it is; \<open>Set.delete\<close> removes it.
\<close>

definition unsubscribe :: "'h \<Rightarrow> 'h WebSocketClient \<Rightarrow> 'h WebSocketClient" where
  "unsubscribe h c = c\<lparr>messageHandlers := removeAll h (messageHandlers c)\<rparr>"

definition subscribe ::
  "'h \<Rightarrow> 'h WebSocketClient \<Rightarrow> 'h WebSocketClient \<times> ('h WebSocketClient \<Rightarrow> 'h WebSocketClient)" where
  "subscribe h c =
     (c\<lparr>messageHandlers :=
          (if h \<in> set (messageHandlers c) then messageHandlers c else messageHandlers c @ [h])\<rparr>,
      unsubscribe h)"

definition isConnected :: "'h WebSocketClient \<Rightarrow> bool" where
  "isConnected c = (readyState c = Some OPEN)"

text \<open>The state of \<open>new WebSocketClient()\<close> in a browser that has created nothing yet.\<close>

definition wsClient :: "'h WebSocketClient" where
  "wsClient =
     \<lparr>ws = None, reconnectAttempts = 0, messageHandlers = [], pingInterval = None,
      isConnecting = False, user = ''anonymous'', sockets = [], timeouts = [], fired = 0,
      intervals = [], intervalsCreated = 0\<rparr>"

subsection \<open>Browser events\<close>

text \<open>
  The browser drives the client: it calls a method, or it changes the state of one socket
  and runs the handler attached to it, or a pending timeout fires and runs its callback
  \<open>this.connect(this.user)\<close>. An event that cannot happen in the current state (a socket
  that does not exist or is already closed, no pending timeout) leaves the state as it is.
\<close>

datatype event =
    Connect string bool
  | Disconnect
  | SocketOpen nat
  | SocketError nat
  | SocketClose nat
  | TimeoutFire bool

definition step :: "event \<Rightarrow> 'h WebSocketClient \<Rightarrow> 'h WebSocketClient" where
  "step e c =
     (case e of
        Connect u t \<Rightarrow> connect u t c
      | Disconnect \<Rightarrow> disconnect c
      | SocketOpen i \<Rightarrow>
          if i < length (sockets c) \<and> sockets c ! i = CONNECTING
          then onopen (c\<lparr>sockets := (sockets c)[i := OPEN]\<rparr>) else c
      | SocketError i \<Rightarrow>
          if i < length (sockets c) \<and> sockets c ! i \<noteq> CLOSED then onerror c else c
      | SocketClose i \<Rightarrow>
          if i < length (sockets c) \<and> sockets c ! i \<noteq> CLOSED
          then onclose (c\<lparr>sockets := (sockets c)[i := CLOSED]\<rparr>) else c
      | TimeoutFire t \<Rightarrow>
          if fired c < length (timeouts c)
          then connect (user c) t (c\<lparr>fired := Suc (fired c)\<rparr>) else c)"

definition run :: "event list \<Rightarrow> 'h WebSocketClient \<Rightarrow> 'h WebSocketClient" where
  "run es c = foldl (\<lambda>s e. step e s) c es"

fun is_SocketOpen :: "event \<Rightarrow> bool" where
  "is_SocketOpen (SocketOpen i) = True"
| "is_SocketOpen e = False"

text \<open>
  \<open>backoff_extends c c'\<close>: from \<open>c\<close> to \<open>c'\<close> the attempt counter has grown, to at most
  10 (unless it was larger already), and the timeouts set in between are one per attempt
  counted, attempt number \<open>n + 1\<close> with the delay \<open>1000 * 2 ^ n\<close>.
\<close>

definition backoff_extends :: "'h WebSocketClient \<Rightarrow> 'h WebSocketClient \<Rightarrow> bool" where
  "backoff_extends c c' =
     (reconnectAttempts c \<le> reconnectAttempts c' \<and>
      reconnectAttempts c' \<le> max (reconnectAttempts c) 10 \<and>
      timeouts c' = timeouts c @
        map (\<lambda>n. 1000 * 2 ^ n) [reconnectAttempts c ..< reconnectAttempts c'])"

definition live :: "ReadyState \<Rightarrow> bool" where
  "live s = (s = CONNECTING \<or> s = OPEN)"

subsection \<open>Message dispatch\<close>

text \<open>
  \<open>ws.onmessage\<close>: \<open>JSON.parse(event.data) as WSMessage\<close> followed by
  \<open>messageHandlers.forEach(handler => handler(message))\<close>, all inside one \<open>try\<close>.
  \<open>parse\<close> stands for \<open>JSON.parse\<close> with the cast and gives \<open>None\<close> when it throws;
  \<open>throws h m\<close> says whether handler \<open>h\<close> throws on message \<open>m\<close>. An exception leaves
  the \<open>forEach\<close>, so the handlers after the throwing one are not called. The result is
  the list of handler calls made, in order.
\<close>

fun forEach_handlers :: "('h \<Rightarrow> 'm \<Rightarrow> bool) \<Rightarrow> 'm \<Rightarrow> 'h list \<Rightarrow> 'h list" where
  "forEach_handlers throws m [] = []"
| "forEach_handlers throws m (h # hs) =
     h # (if throws h m then [] else forEach_handlers throws m hs)"

definition onmessage ::
  "('r \<Rightarrow> 'm option) \<Rightarrow> ('h \<Rightarrow> 'm \<Rightarrow> bool) \<Rightarrow> 'r \<Rightarrow> 'h WebSocketClient \<Rightarrow> ('h \<times> 'm) list" where
  "onmessage parse throws raw c =
     (case parse raw of
        None \<Rightarrow> []
      | Some m \<Rightarrow> map (\<lambda>h. (h, m)) (forEach_handlers throws m (messageHandlers c)))"

section \<open>JSON values and the API client\<close>

text \<open>
  \<open>fetchApi\<close> and \<open>ApiError\<close>: src/lib/api.ts, lines 26 to 58, and the same text in
  src/frontend/chortdomains/lib/api.ts, lines 34 to 66.
\<close>

datatype json =
    JNull
  | JBool bool
  | JNum rat
  | JStr string
  | JArr "json list"
  | JObj "(string \<times> json) list"

text \<open>
  A \<open>Response\<close> is its status code and what \<open>response.json()\<close> settles to: \<open>None\<close>
  when the promise rejects (the body is not JSON). \<open>response.ok\<close> is the Fetch
  standard's: the status is in the range 200 to 299.
\<close>

record Response =
  status :: nat
  body :: "json option"

definition ok :: "Response \<Rightarrow> bool" where
  "ok r = (200 \<le> status r \<and> status r \<le> 299)"

datatype js_error = ApiError nat string | TypeError | SyntaxError

datatype fetched = Undefined | Parsed json

text \<open>
  \<open>error.detail\<close>: reading a property of \<open>null\<close> throws a TypeError; an object gives
  the member's value (the last one, when \<open>JSON.parse\<close> met the key twice) or
  \<open>undefined\<close> (\<open>None\<close>); every other JSON value has no such property.
\<close>

definition get_detail :: "json \<Rightarrow> js_error + json option" where
  "get_detail j =
     (case j of
        JNull \<Rightarrow> Inl TypeError
      | JObj kvs \<Rightarrow> Inr (map_of (rev kvs) ''detail'')
      | _ \<Rightarrow> Inr None)"

text \<open>JavaScript truthiness of a property value, for \<open>error.detail || 'Request failed'\<close>.\<close>

definition truthy :: "json \<Rightarrow> bool" where
  "truthy v =
     (case v of
        JNull \<Rightarrow> False
      | JBool b \<Rightarrow> b
      | JNum n \<Rightarrow> n \<noteq> 0
      | JStr s \<Rightarrow> s \<noteq> []
      | JArr _ \<Rightarrow> True
      | JObj _ \<Rightarrow> True)"

text \<open>
  \<open>new ApiError(status, message)\<close> passes \<open>message\<close> to the \<open>Error\<close> constructor,
  which stores a string as it is and converts any other value with \<open>ToString\<close>; that
  conversion is the parameter \<open>toStr\<close>.
\<close>

definition error_message :: "(json \<Rightarrow> string) \<Rightarrow> json \<Rightarrow> string" where
  "error_message toStr v = (case v of JStr s \<Rightarrow> s | _ \<Rightarrow> toStr v)"

text \<open>\<open>ToString\<close> of an object that has no \<open>toString\<close> of its own.\<close>

definition ToString_object :: "json \<Rightarrow> string" where
  "ToString_object v = ''[object Object]''"

definition fetchApi :: "(json \<Rightarrow> string) \<Rightarrow> Response \<Rightarrow> js_error + fetched" where
  "fetchApi toStr r =
     (if \<not> ok r then
        (let error = (case body r of
                        None \<Rightarrow> JObj [(''detail'', JStr ''Unknown error'')]
                      | Some j \<Rightarrow> j)
         in case get_detail error of
              Inl e \<Rightarrow> Inl e
            | Inr d \<Rightarrow>
                Inl (ApiError (status r)
                       (case d of
                          None \<Rightarrow> ''Request failed''
                        | Some v \<Rightarrow>
                            if truthy v then error_message toStr v else ''Request failed'')))
      else if status r = 204 then Inr Undefined
      else (case body r of None \<Rightarrow> Inl SyntaxError | Some j \<Rightarrow> Inr (Parsed j)))"

section \<open>The realtime hooks\<close>

text \<open>
  \<open>useWebSocket\<close> and \<open>useRealtimeUpdates\<close>:
  src/frontend/chortservice/app/servers/page.tsx, lines 2009 to 2063 (the module the
  pages import as hooks/useWebSocket).

  A message is what \<open>JSON.parse(event.data)\<close> returned, so any JSON value: the cast
  \<open>as WSMessage\<close> (src/lib/api.ts, line 267) checks nothing at run time.
\<close>

text \<open>
  \<open>v.k\<close> for the member names the closures read (\<open>channel\<close>, \<open>data\<close>, \<open>action\<close>),
  none of which a built-in prototype defines: reading a member of \<open>null\<close> throws a
  TypeError; an object gives the member's value (the last one, when \<open>JSON.parse\<close> met
  the key twice) or \<open>undefined\<close> (\<open>None\<close>); every other JSON value gives \<open>undefined\<close>.
  Reading a member of \<open>undefined\<close> throws as well; that case is written out where it
  can arise.
\<close>

definition member :: "string \<Rightarrow> json \<Rightarrow> js_error + json option" where
  "member k v =
     (case v of
        JNull \<Rightarrow> Inl TypeError
      | JObj kvs \<Rightarrow> Inr (map_of (rev kvs) k)
      | _ \<Rightarrow> Inr None)"

text \<open>\<open>v?.k\<close>, where \<open>v\<close> may be \<open>undefined\<close>: no read, and \<open>undefined\<close>, when \<open>v\<close> is nullish.\<close>

definition optional_member :: "string \<Rightarrow> json option \<Rightarrow> json option" where
  "optional_member k v =
     (case v of
        None \<Rightarrow> None
      | Some JNull \<Rightarrow> None
      | Some (JObj kvs) \<Rightarrow> map_of (rev kvs) k
      | Some _ \<Rightarrow> None)"

text \<open>The parameter type of \<open>useRealtimeUpdates\<close>: a union of four string literals.\<close>

datatype Channel = ch_servers | ch_domains | ch_assignments | ch_locks

fun channel_name :: "Channel \<Rightarrow> string" where
  "channel_name ch_servers = ''servers''"
| "channel_name ch_domains = ''domains''"
| "channel_name ch_assignments = ''assignments''"
| "channel_name ch_locks = ''locks''"

text \<open>
  The two closures the hooks pass to \<open>wsClient.subscribe\<close>. A closure is a fresh object
  at every evaluation of the arrow function; the number is that identity. The closure of
  \<open>useRealtimeUpdates\<close> captures \<open>channel\<close> and \<open>onUpdate\<close>.
\<close>

datatype 'cb MessageHandler =
    RealtimeUpdates nat Channel 'cb
  | WebSocketHook nat

text \<open>
  The calls a closure makes: \<open>onUpdate(action, data)\<close>, where \<open>action\<close> may be
  \<open>undefined\<close>, and the two state setters of \<open>useWebSocket\<close>.
\<close>

datatype 'cb hook_call =
    OnUpdate 'cb "json option" json
  | SetLastMessage json
  | SetIsConnected bool

text \<open>
  One run of a closure on a message: the calls it made, in order, and whether it threw.
  \<open>raises onUpdate action data\<close> says whether that call of the callback throws.

  The closure of \<open>useRealtimeUpdates\<close> (line 2055) compares \<open>message.channel\<close> with its
  channel by \<open>===\<close> and then evaluates \<open>message.data.action\<close> with no guard: it throws
  before the callback is called when \<open>data\<close> is missing or \<open>null\<close>.

  The closure of \<open>useWebSocket\<close> (line 2016) stores the message first and then reads
  \<open>message.data?.action\<close>, which is \<open>undefined\<close> when \<open>data\<close> is missing or \<open>null\<close>; the
  state setters do not throw.
\<close>

fun handler ::
  "('cb \<Rightarrow> json option \<Rightarrow> json \<Rightarrow> bool) \<Rightarrow> 'cb MessageHandler \<Rightarrow> json \<Rightarrow>
     'cb hook_call list \<times> bool" where
  "handler raises (RealtimeUpdates i ch onUpdate) message =
     (case member ''channel'' message of
        Inl e \<Rightarrow> ([], True)
      | Inr c \<Rightarrow>
          if c = Some (JStr (channel_name ch)) then
            (case member ''data'' message of
               Inl e \<Rightarrow> ([], True)
             | Inr None \<Rightarrow> ([], True)
             | Inr (Some d) \<Rightarrow>
                 (case member ''action'' d of
                    Inl e \<Rightarrow> ([], True)
                  | Inr a \<Rightarrow> ([OnUpdate onUpdate a d], raises onUpdate a d)))
          else ([], False))"
| "handler raises (WebSocketHook i) message =
     (case member ''data'' message of
        Inl e \<Rightarrow> ([SetLastMessage message], True)
      | Inr d \<Rightarrow>
          (SetLastMessage message #
             (if optional_member ''action'' d = Some (JStr ''connected'') \<or>
                 member ''channel'' message = Inr (Some (JStr ''connected''))
              then [SetIsConnected True] else []),
           False))"

text \<open>
  \<open>ws.onmessage\<close> with these closures as the handlers: the closures run in subscription
  order up to and including the first one that throws; the \<open>catch\<close> of \<open>onmessage\<close>
  takes the exception, and the closures after it are not run. The result is every call
  made, with the closure that made it.
\<close>

definition dispatch ::
  "('cb \<Rightarrow> json option \<Rightarrow> json \<Rightarrow> bool) \<Rightarrow> ('r \<Rightarrow> json option) \<Rightarrow> 'r \<Rightarrow>
   'cb MessageHandler WebSocketClient \<Rightarrow> ('cb MessageHandler \<times> 'cb hook_call) list" where
  "dispatch raises parse raw c =
     concat (map (\<lambda>(h, m). map (Pair h) (fst (handler raises h m)))
               (onmessage parse (\<lambda>h m. snd (handler raises h m)) raw c))"

text \<open>
  The effect of \<open>useRealtimeUpdates(channel, onUpdate)\<close>: subscribe a new closure (with
  identity \<open>i\<close>) when the component mounts, and hand the unsubscribe function to React as
  the cleanup.
\<close>

definition useRealtimeUpdates ::
  "nat \<Rightarrow> Channel \<Rightarrow> 'cb \<Rightarrow> 'cb MessageHandler WebSocketClient \<Rightarrow>
     'cb MessageHandler WebSocketClient \<times>
     ('cb MessageHandler WebSocketClient \<Rightarrow> 'cb MessageHandler WebSocketClient)" where
  "useRealtimeUpdates i ch onUpdate c = subscribe (RealtimeUpdates i ch onUpdate) c"






section \<open>The pages and their reloads\<close>





subsection \<open>ServersPage\<close>



subsection \<open>DomainsPage\<close>



subsection \<open>Dashboard\<close>



subsection \<open>AssignmentsPage\<close>



subsection \<open>What a session does on a message\<close>


definition never_raises :: "'cb \<Rightarrow> json option \<Rightarrow> json \<Rightarrow> bool" where
  "never_raises onUpdate act dat = False"








text \<open>\<open>message.data\<close> is there and is not \<open>null\<close>.\<close>

definition has_data :: "json \<Rightarrow> bool" where
  "has_data message =
     (case member ''data'' message of
        Inr (Some d) \<Rightarrow> d \<noteq> JNull
      | _ \<Rightarrow> False)"






section \<open>Capacity modes and the capacity bars\<close>

text \<open>
  Modelled from the spec: the type \<open>CapacityMode\<close> of lib/types.ts, which is not among
  the sources. The spec names the three modes low, medium and high; on the wire and in
  the forms a mode is the string \<open>mode_value\<close> gives (the literals of
  \<open>CAPACITY_OPTIONS\<close> and of the forms' initial state).
\<close>

datatype CapacityMode = low | medium | high

text \<open>
  Modelled from the spec: the backend's \<open>slotsFor\<close>, which is not among the sources;
  the spec gives the fixed table \<open>{low: 5, medium: 7, high: 10}\<close>.
\<close>

fun slotsFor :: "CapacityMode \<Rightarrow> nat" where
  "slotsFor low = 5"
| "slotsFor medium = 7"
| "slotsFor high = 10"

fun mode_value :: "CapacityMode \<Rightarrow> string" where
  "mode_value low = ''1:5''"
| "mode_value medium = ''1:7''"
| "mode_value high = ''1:10''"

record SelectOption =
  opt_value :: string
  opt_label :: string

text \<open>
  \<open>CAPACITY_OPTIONS\<close>: src/frontend/chortservice/app/servers/page.tsx, lines 9 to 13
  (and src/unnamed/part_000, the same lines).
\<close>

definition CAPACITY_OPTIONS :: "SelectOption list" where
  "CAPACITY_OPTIONS =
     [\<lparr>opt_value = ''1:5'', opt_label = ''1:5 (5 domains max)''\<rparr>,
      \<lparr>opt_value = ''1:7'', opt_label = ''1:7 (7 domains max)''\<rparr>,
      \<lparr>opt_value = ''1:10'', opt_label = ''1:10 (10 domains max)''\<rparr>]"

text \<open>The decimal numeral of a natural number, to read the counts the labels spell out.\<close>

definition digit :: "nat \<Rightarrow> char" where
  "digit n = ''0123456789'' ! n"

function decimal :: "nat \<Rightarrow> string" where
  "decimal n = (if n < 10 then [digit n] else decimal (n div 10) @ [digit (n mod 10)])"
  by pat_completeness auto
termination
  by (relation "measure id") auto

text \<open>
  A JavaScript number: a finite value (kept exact: rounding plays no part below), the two
  infinities, or NaN. Zero stands for positive zero. Division and multiplication follow
  ECMAScript's \<open>Number::divide\<close> and \<open>Number::multiply\<close>.
\<close>

datatype jsnum = Fin rat | PosInf | NegInf | NaN

fun js_div :: "jsnum \<Rightarrow> jsnum \<Rightarrow> jsnum" where
  "js_div NaN y = NaN"
| "js_div x NaN = NaN"
| "js_div (Fin a) (Fin b) =
     (if b = 0 then (if a = 0 then NaN else if 0 < a then PosInf else NegInf) else Fin (a / b))"
| "js_div (Fin a) PosInf = Fin 0"
| "js_div (Fin a) NegInf = Fin 0"
| "js_div PosInf (Fin b) = (if 0 \<le> b then PosInf else NegInf)"
| "js_div NegInf (Fin b) = (if 0 \<le> b then NegInf else PosInf)"
| "js_div PosInf y = NaN"
| "js_div NegInf y = NaN"

fun js_mul :: "jsnum \<Rightarrow> jsnum \<Rightarrow> jsnum" where
  "js_mul NaN y = NaN"
| "js_mul x NaN = NaN"
| "js_mul (Fin a) (Fin b) = Fin (a * b)"
| "js_mul (Fin a) PosInf = (if a = 0 then NaN else if 0 < a then PosInf else NegInf)"
| "js_mul (Fin a) NegInf = (if a = 0 then NaN else if 0 < a then NegInf else PosInf)"
| "js_mul PosInf (Fin b) = (if b = 0 then NaN else if 0 < b then PosInf else NegInf)"
| "js_mul NegInf (Fin b) = (if b = 0 then NaN else if 0 < b then NegInf else PosInf)"
| "js_mul PosInf PosInf = PosInf"
| "js_mul PosInf NegInf = NegInf"
| "js_mul NegInf PosInf = NegInf"
| "js_mul NegInf NegInf = PosInf"

fun Math_max :: "jsnum \<Rightarrow> jsnum \<Rightarrow> jsnum" where
  "Math_max NaN y = NaN"
| "Math_max x NaN = NaN"
| "Math_max PosInf y = PosInf"
| "Math_max x PosInf = PosInf"
| "Math_max NegInf y = y"
| "Math_max x NegInf = x"
| "Math_max (Fin a) (Fin b) = Fin (max a b)"

definition finite_number :: "jsnum \<Rightarrow> bool" where
  "finite_number x = (case x of Fin a \<Rightarrow> True | _ \<Rightarrow> False)"

text \<open>The two fields of a \<open>Server\<close> row that the capacity column reads.\<close>

record Server =
  current_domains :: int
  max_domains :: int

text \<open>
  ServersPage, capacity column (src/frontend/chortservice/app/servers/page.tsx, line 461,
  and src/unnamed/part_000, line 217): the \<open>width\<close> of the bar,
  \<open>(server.current_domains / server.max_domains) * 100\<close>.
\<close>

definition capacity_bar_width :: "Server \<Rightarrow> jsnum" where
  "capacity_bar_width server =
     js_mul (js_div (Fin (of_int (current_domains server))) (Fin (of_int (max_domains server))))
       (Fin 100)"

text \<open>
  Dashboard, capacity by mode (src/unnamed/part_001, line 116):
  \<open>(data.used / Math.max(data.capacity, 1)) * 100\<close>.
\<close>

record ModeUtilization =
  mu_servers :: int
  mu_used :: int
  mu_capacity :: int

definition utilization_bar_width :: "ModeUtilization \<Rightarrow> jsnum" where
  "utilization_bar_width d =
     js_mul (js_div (Fin (of_int (mu_used d))) (Math_max (Fin (of_int (mu_capacity d))) (Fin 1)))
       (Fin 100)"

section \<open>Bulk import\<close>

text \<open>
  \<open>handleBulkImport\<close> (servers) and \<open>handleBulkCreate\<close> (domains):
  src/frontend/chortservice/app/servers/page.tsx, lines 180 to 216 and 1329 to 1368.

  The text of a textarea is a JavaScript string: a sequence of UTF-16 code units.
  \<open>is_whitespace\<close> is the set \<open>String.prototype.trim\<close> strips (ECMAScript's WhiteSpace
  and LineTerminator); \<open>js_split\<close> is \<open>String.prototype.split\<close> with a separator of
  one code unit.
\<close>

type_synonym js_string = "nat list"

definition is_whitespace :: "nat \<Rightarrow> bool" where
  "is_whitespace c =
     (c \<in> {9, 10, 11, 12, 13, 32, 160, 5760, 8232, 8233, 8239, 8287, 12288, 65279}
      \<or> (8192 \<le> c \<and> c \<le> 8202))"

definition trim :: "js_string \<Rightarrow> js_string" where
  "trim s = rev (dropWhile is_whitespace (rev (dropWhile is_whitespace s)))"

fun js_split :: "nat \<Rightarrow> js_string \<Rightarrow> js_string list" where
  "js_split sep [] = [[]]"
| "js_split sep (c # cs) =
     (if c = sep then [] # js_split sep cs
      else (case js_split sep cs of [] \<Rightarrow> [[c]] | l # ls \<Rightarrow> (c # l) # ls))"

datatype 'req submission = FormError string | Submitted 'req

record ServerBulkCreate =
  bc_servers :: "js_string list"
  bc_capacity_mode :: CapacityMode
  bc_description :: "js_string option"

text \<open>
  \<open>handleBulkImport\<close> up to the request: the form error it sets and returns with, or the
  body it passes to \<open>serverApi.bulkCreate\<close>. Its arguments are the state it reads:
  \<open>bulkText\<close>, \<open>bulkData.capacity_mode\<close> and \<open>bulkData.description\<close>.
\<close>

definition handleBulkImport ::
  "js_string \<Rightarrow> CapacityMode \<Rightarrow> js_string \<Rightarrow> ServerBulkCreate submission" where
  "handleBulkImport bulkText capacity_mode description =
     (let servers = filter (\<lambda>line. length line > 0) (map trim (js_split 10 bulkText))
      in if length servers = 0 then FormError ''Please enter at least one server''
         else Submitted \<lparr>bc_servers = servers, bc_capacity_mode = capacity_mode,
                bc_description = (if description = [] then None else Some description)\<rparr>)"

record DomainBulkCreate =
  bd_domains :: "js_string list"
  bd_tags :: "js_string list option"

definition handleBulkCreate :: "js_string \<Rightarrow> js_string \<Rightarrow> DomainBulkCreate submission" where
  "handleBulkCreate bulkDomains bulkTags =
     (let domainsList = filter (\<lambda>d. length d > 0) (map trim (js_split 10 bulkDomains))
      in if length domainsList = 0 then FormError ''Please enter at least one domain''
         else
           let tags = filter (\<lambda>t. length t > 0) (map trim (js_split 44 bulkTags))
           in Submitted \<lparr>bd_domains = domainsList,
                bd_tags = (if length tags > 0 then Some tags else None)\<rparr>)"

section \<open>The assignment ledger\<close>

text \<open>
  Modelled from the spec: the backend's ledger state, which is not among the sources.
  Per server its \<open>current_domains\<close> and \<open>max_domains\<close>, per domain the server it is
  assigned to, if any.
\<close>

record ledger =
  srv_current :: "nat \<Rightarrow> nat"
  srv_max :: "nat \<Rightarrow> nat"
  assigned_to :: "nat \<Rightarrow> nat option"

datatype assign_error = DomainAlreadyAssigned | ServerAtCapacity

text \<open>
  Modelled from the spec: the backend's \<open>remainingSlots\<close> (section 4.1):
  \<open>max_domains - current_domains\<close>, never negative.
\<close>

definition remainingSlots :: "ledger \<Rightarrow> nat \<Rightarrow> nat" where
  "remainingSlots L s = srv_max L s - srv_current L s"

text \<open>
  Modelled from the spec: the backend's \<open>assign\<close> (section 4.3), which is not among the
  sources. It fails with DomainAlreadyAssigned if the domain is already assigned, fails
  with ServerAtCapacity if the server has no remaining slot, and otherwise records the
  assignment and increments the server's \<open>current_domains\<close>, as one atomic unit.
\<close>

definition assign :: "nat \<Rightarrow> nat \<Rightarrow> ledger \<Rightarrow> assign_error + ledger" where
  "assign d s L =
     (if assigned_to L d \<noteq> None then Inl DomainAlreadyAssigned
      else if remainingSlots L s = 0 then Inl ServerAtCapacity
      else Inr (L\<lparr>assigned_to := (assigned_to L)(d \<mapsto> s),
                  srv_current := (srv_current L)(s := srv_current L s + 1)\<rparr>))"

text \<open>
  Modelled from the spec: the transaction each \<open>assign\<close> call runs in (section 5). A
  call waits for the server row's write lock, takes it, reads \<open>current_domains\<close> and
  the domain's assignment, checks what it read against \<open>max_domains\<close>, writes the new
  values (the count it read plus one) or fails, and releases the lock as it returns.
  \<open>call_step ds s i\<close> is one such step of call number \<open>i\<close>, which assigns domain
  \<open>ds ! i\<close> to server \<open>s\<close>; a call that waits for a lock another call holds does not
  move. Concurrent execution is any interleaving of the calls' steps: \<open>execute\<close> runs a
  schedule, the list of the numbers of the calls that take the next step.
\<close>

datatype call_state =
    Waiting
  | Locked
  | HasRead nat "nat option"
  | Finished "assign_error option"

record store =
  rows :: ledger
  row_lock :: "nat option"
  calls :: "call_state list"

definition call_step :: "nat list \<Rightarrow> nat \<Rightarrow> nat \<Rightarrow> store \<Rightarrow> store" where
  "call_step ds s i st =
     (if i < length (calls st) \<and> i < length ds then
        (case calls st ! i of
           Waiting \<Rightarrow>
             (case row_lock st of
                None \<Rightarrow> st\<lparr>row_lock := Some i, calls := (calls st)[i := Locked]\<rparr>
              | Some j \<Rightarrow> st)
         | Locked \<Rightarrow>
             st\<lparr>calls := (calls st)
                    [i := HasRead (srv_current (rows st) s) (assigned_to (rows st) (ds ! i))]\<rparr>
         | HasRead r a \<Rightarrow>
             if a \<noteq> None then
               st\<lparr>row_lock := None,
                  calls := (calls st)[i := Finished (Some DomainAlreadyAssigned)]\<rparr>
             else if srv_max (rows st) s - r = 0 then
               st\<lparr>row_lock := None,
                  calls := (calls st)[i := Finished (Some ServerAtCapacity)]\<rparr>
             else
               st\<lparr>rows := (rows st)
                      \<lparr>assigned_to := (assigned_to (rows st))(ds ! i \<mapsto> s),
                       srv_current := (srv_current (rows st))(s := r + 1)\<rparr>,
                  row_lock := None,
                  calls := (calls st)[i := Finished None]\<rparr>
         | Finished out \<Rightarrow> st)
      else st)"

definition execute :: "nat list \<Rightarrow> nat \<Rightarrow> nat list \<Rightarrow> store \<Rightarrow> store" where
  "execute ds s schedule st = foldl (\<lambda>t i. call_step ds s i t) st schedule"

definition issued :: "ledger \<Rightarrow> nat \<Rightarrow> store" where
  "issued L n = \<lparr>rows = L, row_lock = None, calls = replicate n Waiting\<rparr>"

fun is_Finished :: "call_state \<Rightarrow> bool" where
  "is_Finished (Finished out) = True"
| "is_Finished c = False"

definition all_returned :: "store \<Rightarrow> bool" where
  "all_returned st = list_all is_Finished (calls st)"

definition successes :: "store \<Rightarrow> nat" where
  "successes st = length (filter (\<lambda>c. c = Finished None) (calls st))"

definition capacity_failures :: "store \<Rightarrow> nat" where
  "capacity_failures st =
     length (filter (\<lambda>c. c = Finished (Some ServerAtCapacity)) (calls st))"

fun steps_left :: "call_state \<Rightarrow> nat" where
  "steps_left Waiting = 3"
| "steps_left Locked = 2"
| "steps_left (HasRead r a) = 1"
| "steps_left (Finished out) = 0"

text \<open>
  What holds in every state the calls can reach from a ledger \<open>L\<close>: the lock is held by
  exactly the call that is between taking it and returning; what a call has read is
  still what the row holds; the counter is the initial count plus the successes so far
  and has not passed the maximum; a domain whose call has not succeeded is unassigned;
  and a call has failed only with ServerAtCapacity, with the server full.
\<close>

definition store_inv :: "nat list \<Rightarrow> nat \<Rightarrow> ledger \<Rightarrow> store \<Rightarrow> bool" where
  "store_inv ds s L st =
     (length (calls st) = length ds \<and>
      srv_max (rows st) = srv_max L \<and>
      srv_current (rows st) s = srv_current L s + successes st \<and>
      srv_current (rows st) s \<le> srv_max L s \<and>
      (\<forall>i < length ds.
         (row_lock st = Some i) =
           (calls st ! i = Locked \<or> (\<exists>r a. calls st ! i = HasRead r a))) \<and>
      (\<forall>j. row_lock st = Some j \<longrightarrow> j < length ds) \<and>
      (\<forall>i < length ds. \<forall>r a. calls st ! i = HasRead r a \<longrightarrow>
         r = srv_current (rows st) s \<and> a = assigned_to (rows st) (ds ! i)) \<and>
      (\<forall>i < length ds. calls st ! i \<noteq> Finished None \<longrightarrow>
         assigned_to (rows st) (ds ! i) = None) \<and>
      (\<forall>i < length ds. \<forall>e. calls st ! i = Finished (Some e) \<longrightarrow>
         e = ServerAtCapacity \<and> srv_current (rows st) s = srv_max L s))"

definition work_left :: "store \<Rightarrow> nat" where
  "work_left st = sum_list (map steps_left (calls st))"

section \<open>Reconnection with backoff\<close>

lemma stopPing_fields [simp]:
  "reconnectAttempts (stopPing c) = reconnectAttempts c"
  "timeouts (stopPing c) = timeouts c"
  "isConnecting (stopPing c) = isConnecting c"
  "messageHandlers (stopPing c) = messageHandlers c"
  "sockets (stopPing c) = sockets c"
  "ws (stopPing c) = ws c"
  by (simp_all add: stopPing_def split: option.splits)

lemma startPing_fields [simp]:
  "reconnectAttempts (startPing c) = reconnectAttempts c"
  "timeouts (startPing c) = timeouts c"
  "isConnecting (startPing c) = isConnecting c"
  "messageHandlers (startPing c) = messageHandlers c"
  "sockets (startPing c) = sockets c"
  "ws (startPing c) = ws c"
  by (simp_all add: startPing_def Let_def)

lemma onopen_resets: "reconnectAttempts (onopen c) = 0" "timeouts (onopen c) = timeouts c"
  by (simp_all add: onopen_def)

lemma onclose_attempts:
  "reconnectAttempts (onclose c) = min (Suc (reconnectAttempts c)) (max (reconnectAttempts c) 10)"
  by (simp add: onclose_def attemptReconnect_def maxReconnectAttempts_def)

lemma onclose_timeouts:
  "timeouts (onclose c) =
     timeouts c @ map (\<lambda>n. reconnectDelay * 2 ^ n) [reconnectAttempts c ..< reconnectAttempts (onclose c)]"
  by (simp add: onclose_def attemptReconnect_def maxReconnectAttempts_def)

lemma upt_split: "i \<le> j \<Longrightarrow> j \<le> k \<Longrightarrow> [i..<k] = [i..<j] @ [j..<k]"
  using upt_add_eq_append [of i j "k - j"] by simp

lemma closes_schedule:
  "reconnectAttempts c \<le> 10 \<Longrightarrow>
   reconnectAttempts ((onclose ^^ k) c) = min (reconnectAttempts c + k) 10 \<and>
   timeouts ((onclose ^^ k) c) =
     timeouts c @
       map (\<lambda>n. reconnectDelay * 2 ^ n) [reconnectAttempts c ..< min (reconnectAttempts c + k) 10]"
proof (induction k)
  case 0
  then show ?case by simp
next
  case (Suc k)
  let ?d = "(onclose ^^ k) c"
  let ?a = "reconnectAttempts c"
  have a: "reconnectAttempts ?d = min (?a + k) 10"
    and t: "timeouts ?d = timeouts c @ map (\<lambda>n. reconnectDelay * 2 ^ n) [?a ..< min (?a + k) 10]"
    using Suc by simp_all
  have a': "reconnectAttempts (onclose ?d) = min (?a + Suc k) 10"
    using a Suc.prems by (simp add: onclose_attempts)
  have "[?a ..< min (?a + Suc k) 10] =
        [?a ..< min (?a + k) 10] @ [min (?a + k) 10 ..< min (?a + Suc k) 10]"
    using Suc.prems by (intro upt_split) simp_all
  then show ?case
    using a a' t by (simp add: onclose_timeouts)
qed

lemma shift_upt: "map f [0..<m] = map (\<lambda>n. f (n - 1)) [1..<Suc m]"
  by (simp add: map_Suc_upt [symmetric] del: upt_Suc)

text \<open>
  The same for whatever the browser does between two opens: every event but an open
  extends the schedule, so a run of such events does.
\<close>

lemma backoff_extends_refl: "backoff_extends c c"
  by (simp add: backoff_extends_def)

lemma backoff_extends_trans:
  assumes "backoff_extends a b" and "backoff_extends b c"
  shows "backoff_extends a c"
proof -
  have "[reconnectAttempts a ..< reconnectAttempts c] =
        [reconnectAttempts a ..< reconnectAttempts b] @ [reconnectAttempts b ..< reconnectAttempts c]"
    using assms by (intro upt_split) (simp_all add: backoff_extends_def)
  with assms show ?thesis
    by (auto simp: backoff_extends_def)
qed

lemma backoff_extends_cong:
  "reconnectAttempts c' = reconnectAttempts c \<Longrightarrow> timeouts c' = timeouts c \<Longrightarrow>
   backoff_extends c' d \<Longrightarrow> backoff_extends c d"
  by (simp add: backoff_extends_def)

lemma attemptReconnect_extends: "backoff_extends c (attemptReconnect c)"
  by (simp add: backoff_extends_def attemptReconnect_def maxReconnectAttempts_def
      reconnectDelay_def)

lemma connect_extends: "backoff_extends c (connect u t c)"
proof -
  let ?c1 = "c\<lparr>isConnecting := True, user := u, isConnecting := False\<rparr>"
  have "backoff_extends ?c1 (attemptReconnect ?c1)"
    by (rule attemptReconnect_extends)
  then have "backoff_extends c (attemptReconnect ?c1)"
    by (rule backoff_extends_cong [rotated 2]) simp_all
  then show ?thesis
    by (simp add: connect_def Let_def backoff_extends_refl) (simp add: backoff_extends_def)
qed

lemma onclose_extends: "backoff_extends c (onclose c)"
proof -
  have "backoff_extends (stopPing (c\<lparr>isConnecting := False\<rparr>)) (onclose c)"
    unfolding onclose_def by (rule attemptReconnect_extends)
  then show ?thesis
    by (rule backoff_extends_cong [rotated 2]) simp_all
qed

lemma step_extends: "\<not> is_SocketOpen e \<Longrightarrow> backoff_extends c (step e c)"
proof (cases e)
  case (Connect u t)
  then show ?thesis by (simp add: step_def connect_extends)
next
  case Disconnect
  then show ?thesis
    by (simp add: step_def disconnect_def Let_def backoff_extends_def split: option.splits)
next
  case (SocketOpen i)
  assume "\<not> is_SocketOpen e"
  with SocketOpen show ?thesis by simp
next
  case (SocketError i)
  then show ?thesis by (simp add: step_def onerror_def backoff_extends_def)
next
  case (SocketClose i)
  have "backoff_extends c (onclose (c\<lparr>sockets := (sockets c)[i := CLOSED]\<rparr>))"
    by (rule backoff_extends_cong [OF _ _ onclose_extends]) simp_all
  with SocketClose show ?thesis by (simp add: step_def backoff_extends_refl)
next
  case (TimeoutFire t)
  have "backoff_extends c (connect (user c) t (c\<lparr>fired := Suc (fired c)\<rparr>))"
    by (rule backoff_extends_cong [OF _ _ connect_extends]) simp_all
  with TimeoutFire show ?thesis by (simp add: step_def backoff_extends_refl)
qed

lemma run_extends: "\<forall>e\<in>set es. \<not> is_SocketOpen e \<Longrightarrow> backoff_extends c (run es c)"
proof (induction es arbitrary: c)
  case Nil
  then show ?case by (simp add: run_def backoff_extends_refl)
next
  case (Cons e es)
  have "backoff_extends c (step e c)"
    using Cons.prems by (simp add: step_extends)
  moreover have "backoff_extends (step e c) (run es (step e c))"
    using Cons by simp
  ultimately have "backoff_extends c (run es (step e c))"
    by (rule backoff_extends_trans)
  then show ?case by (simp add: run_def)
qed

lemmas client_defs =
  run_def step_def connect_def disconnect_def onopen_def onclose_def onerror_def wsClient_def
  readyState_def startPing_def stopPing_def attemptReconnect_def socket_close_def Let_def
  maxReconnectAttempts_def reconnectDelay_def

text \<open>
  C3. A successful open sets the attempt counter to 0. From there, \<open>k\<close> close events
  in a row have scheduled exactly the reconnects number 1 to \<open>min k 10\<close>, the \<open>n\<close>-th
  with a delay of \<open>1000 * 2 ^ (n - 1)\<close> ms: each delay is twice the one before, and after
  ten failed attempts nothing more is scheduled. And whatever the browser does after
  the open, short of another open (closes, errors, timeouts firing, calls of connect and
  disconnect), the timeouts set are the reconnects number 1 to the value of the counter,
  with these delays, and the counter does not pass 10.
\<close>

theorem reconnect_backoff:
  "reconnectAttempts (onopen c) = 0 \<and>
   timeouts ((onclose ^^ k) (onopen c)) =
     timeouts c @ map (\<lambda>n. 1000 * 2 ^ (n - 1)) [1..<Suc (min k 10)] \<and>
   ((\<forall>e\<in>set es. \<not> is_SocketOpen e) \<longrightarrow>
      timeouts (run es (onopen c)) =
        timeouts c @
          map (\<lambda>n. 1000 * 2 ^ (n - 1)) [1..<Suc (reconnectAttempts (run es (onopen c)))] \<and>
      reconnectAttempts (run es (onopen c)) \<le> 10)"
proof (intro conjI impI)
  show "reconnectAttempts (onopen c) = 0"
    by (simp add: onopen_resets)
next
  have "timeouts ((onclose ^^ k) (onopen c)) =
          timeouts c @ map (\<lambda>n. reconnectDelay * 2 ^ n) [0 ..< min k 10]"
    using closes_schedule [of "onopen c" k] by (simp add: onopen_resets)
  also have "map (\<lambda>n. reconnectDelay * 2 ^ n) [0 ..< min k 10] =
             map (\<lambda>n. 1000 * 2 ^ (n - 1)) [1..<Suc (min k 10)]"
    unfolding reconnectDelay_def by (rule shift_upt)
  finally show "timeouts ((onclose ^^ k) (onopen c)) =
     timeouts c @ map (\<lambda>n. 1000 * 2 ^ (n - 1)) [1..<Suc (min k 10)]" .
next
  assume no_open: "\<forall>e\<in>set es. \<not> is_SocketOpen e"
  then have ext: "backoff_extends (onopen c) (run es (onopen c))"
    by (rule run_extends)
  then have "timeouts (run es (onopen c)) =
      timeouts c @ map (\<lambda>n. 1000 * 2 ^ n) [0 ..< reconnectAttempts (run es (onopen c))]"
    by (simp add: backoff_extends_def onopen_resets)
  also have "map (\<lambda>n. 1000 * 2 ^ n) [0 ..< reconnectAttempts (run es (onopen c))] =
      map (\<lambda>n. 1000 * 2 ^ (n - 1)) [1..<Suc (reconnectAttempts (run es (onopen c)))]"
    by (rule shift_upt)
  finally show "timeouts (run es (onopen c)) =
        timeouts c @
          map (\<lambda>n. 1000 * 2 ^ (n - 1)) [1..<Suc (reconnectAttempts (run es (onopen c)))]" .
next
  assume no_open: "\<forall>e\<in>set es. \<not> is_SocketOpen e"
  then have "backoff_extends (onopen c) (run es (onopen c))"
    by (rule run_extends)
  then show "reconnectAttempts (run es (onopen c)) \<le> 10"
    by (simp add: backoff_extends_def onopen_resets)
qed

text \<open>
  The socket opens and is closed; the first retry fails with an error and a close, the
  second with a close: three reconnects are scheduled, after 1, 2 and 4 seconds.
\<close>

theorem reconnect_backoff_witness:
  "map is_SocketOpen [SocketClose 0, TimeoutFire False, SocketError 1, SocketClose 1,
                      TimeoutFire False, SocketClose 2]
     = [False, False, False, False, False, False] \<and>
   timeouts (run [SocketClose 0, TimeoutFire False, SocketError 1, SocketClose 1,
                  TimeoutFire False, SocketClose 2]
               (onopen ((connect ''u'' False (wsClient :: unit WebSocketClient))
                          \<lparr>sockets := [OPEN]\<rparr>)))
     = [1000, 2000, 4000] \<and>
   onopen ((connect ''u'' False (wsClient :: unit WebSocketClient))\<lparr>sockets := [OPEN]\<rparr>)
     = run [Connect ''u'' False, SocketOpen 0] wsClient"
  using reconnect_backoff
    [of "(connect ''u'' False (wsClient :: unit WebSocketClient))\<lparr>sockets := [OPEN]\<rparr>" 0
        "[SocketClose 0, TimeoutFire False, SocketError 1, SocketClose 1,
          TimeoutFire False, SocketClose 2]"]
  by (simp add: client_defs)

section \<open>Connecting\<close>

text \<open>
  The guard of \<open>connect\<close>: the call returns at once, leaving every field and the
  browser's sockets as they were, when the client's current socket is OPEN or its
  \<open>isConnecting\<close> flag is set; and once a call has created a socket, a further call
  changes nothing.
\<close>

lemma connect_guard:
  "(readyState c = Some OPEN \<or> isConnecting c \<longrightarrow> connect u t c = c) \<and>
   connect u' t (connect u False c) = connect u False c"
  by (simp add: connect_def Let_def)

text \<open>
  C10 fails on the code: the guard reads the flag \<open>isConnecting\<close>, and the handlers of
  a socket the client has already dropped still write that flag. Take \<open>connect\<close>, the
  socket opens, \<open>disconnect\<close>, \<open>connect\<close> again. The close event of the first socket now
  runs its \<open>onclose\<close>, which clears \<open>isConnecting\<close> while the second socket is still
  connecting, and schedules a reconnect although the client has a socket. A \<open>connect\<close>
  call in that state (made directly, or by the timeout) is not a no-op: it creates a
  third socket while a connection attempt is in progress. When both attempts succeed
  the client has two open sockets, and the ping timer that the first of them started
  is never cleared: \<open>stopPing\<close> knows only the last one, and \<open>disconnect\<close> closes only
  the last socket.
\<close>

theorem stale_close_two_live_sockets:
  "readyState (run [Connect ''u'' False, SocketOpen 0, Disconnect, Connect ''u'' False,
                    SocketClose 0] (wsClient :: unit WebSocketClient)) = Some CONNECTING \<and>
   isConnecting (run [Connect ''u'' False, SocketOpen 0, Disconnect, Connect ''u'' False,
                    SocketClose 0] (wsClient :: unit WebSocketClient)) = False \<and>
   sockets (run [Connect ''u'' False, SocketOpen 0, Disconnect, Connect ''u'' False,
                 SocketClose 0, Connect ''u'' False] (wsClient :: unit WebSocketClient))
     = [CLOSED, CONNECTING, CONNECTING] \<and>
   filter live (sockets (run [Connect ''u'' False, SocketOpen 0, Disconnect, Connect ''u'' False,
                 SocketClose 0, TimeoutFire False, SocketOpen 1, SocketOpen 2]
              (wsClient :: unit WebSocketClient)))
     = [OPEN, OPEN] \<and>
   intervals (run [Connect ''u'' False, SocketOpen 0, Disconnect, Connect ''u'' False,
                 SocketClose 0, TimeoutFire False, SocketOpen 1, SocketOpen 2]
              (wsClient :: unit WebSocketClient))
     = [2, 3] \<and>
   sockets (run [Connect ''u'' False, SocketOpen 0, Disconnect, Connect ''u'' False,
                 SocketClose 0, TimeoutFire False, SocketOpen 1, SocketOpen 2, Disconnect]
              (wsClient :: unit WebSocketClient))
     = [CLOSED, OPEN, CLOSING] \<and>
   intervals (run [Connect ''u'' False, SocketOpen 0, Disconnect, Connect ''u'' False,
                 SocketClose 0, TimeoutFire False, SocketOpen 1, SocketOpen 2, Disconnect]
              (wsClient :: unit WebSocketClient))
     = [2]"
  by (simp add: client_defs live_def)

section \<open>Subscribing\<close>

lemma forEach_subset: "set (forEach_handlers throws m hs) \<subseteq> set hs"
  by (induction hs) auto

lemma onmessage_handlers: "fst ` set (onmessage parse throws raw c) \<subseteq> set (messageHandlers c)"
proof (cases "parse raw")
  case None
  then show ?thesis by (simp add: onmessage_def)
next
  case (Some m)
  then show ?thesis
    using forEach_subset [of throws m "messageHandlers c"]
    by (simp add: onmessage_def image_image)
qed

lemma step_handlers [simp]: "messageHandlers (step e c) = messageHandlers c"
  by (cases e) (simp_all add: step_def connect_def disconnect_def onopen_def onclose_def
      onerror_def attemptReconnect_def Let_def split: option.splits)

lemma run_handlers [simp]: "messageHandlers (run es c) = messageHandlers c"
  unfolding run_def by (induction es arbitrary: c) simp_all

text \<open>
  C7, as the code has it. \<open>subscribe h\<close> returns the unsubscribe function of \<open>h\<close> and
  makes \<open>h\<close> a member of the handler set; unsubscribing removes \<open>h\<close> and nothing else.
  Subscribe followed by its unsubscribe leaves the handlers as they were without \<open>h\<close>:
  the whole client is unchanged when \<open>h\<close> was not subscribed before. After the
  unsubscribe, whatever the browser does next, no message is delivered to \<open>h\<close>.
\<close>

theorem subscribe_unsubscribe:
  "snd (subscribe h c) = unsubscribe h \<and>
   set (messageHandlers (fst (subscribe h c))) = insert h (set (messageHandlers c)) \<and>
   set (messageHandlers (unsubscribe h c')) = set (messageHandlers c') - {h} \<and>
   messageHandlers (snd (subscribe h c) (fst (subscribe h c))) = removeAll h (messageHandlers c) \<and>
   (h \<notin> set (messageHandlers c) \<longrightarrow> snd (subscribe h c) (fst (subscribe h c)) = c) \<and>
   h \<notin> fst ` set (onmessage parse throws raw (run es (unsubscribe h c')))"
proof -
  have "h \<notin> set (messageHandlers (run es (unsubscribe h c')))"
    by (simp add: unsubscribe_def)
  then have "h \<notin> fst ` set (onmessage parse throws raw (run es (unsubscribe h c')))"
    using onmessage_handlers [of parse throws raw "run es (unsubscribe h c')"] by blast
  moreover have "h \<notin> set (messageHandlers c) \<longrightarrow> snd (subscribe h c) (fst (subscribe h c)) = c"
    by (simp add: subscribe_def unsubscribe_def)
  ultimately show ?thesis
    by (auto simp: subscribe_def unsubscribe_def)
qed

theorem subscribe_unsubscribe_witness:
  "(2::nat) \<notin> set (messageHandlers (fst (subscribe (1::nat) wsClient))) \<and>
   snd (subscribe (2::nat) (fst (subscribe (1::nat) wsClient)))
       (fst (subscribe (2::nat) (fst (subscribe (1::nat) wsClient))))
     = fst (subscribe (1::nat) wsClient) \<and>
   messageHandlers (fst (subscribe (2::nat) (fst (subscribe (1::nat) wsClient)))) = [1, 2] \<and>
   onmessage Some (\<lambda>h m. False) ''{}''
     (snd (subscribe (2::nat) (fst (subscribe (1::nat) wsClient)))
          (fst (subscribe (2::nat) (fst (subscribe (1::nat) wsClient)))))
     = [(1, ''{}'')]"
  using subscribe_unsubscribe [of "2::nat" "fst (subscribe (1::nat) wsClient)"]
  by (simp add: subscribe_def unsubscribe_def wsClient_def onmessage_def)

text \<open>
  C7 as stated fails for a handler that is already subscribed: the set holds it once, so
  the second \<open>subscribe\<close> adds nothing and its unsubscribe removes the handler the first
  subscription registered.
\<close>

theorem resubscribe_unsubscribe_drops_handler:
  "messageHandlers (fst (subscribe (0::nat) wsClient)) = [0] \<and>
   messageHandlers (snd (subscribe (0::nat) (fst (subscribe (0::nat) wsClient)))
                     (fst (subscribe (0::nat) (fst (subscribe (0::nat) wsClient))))) = [] \<and>
   snd (subscribe (0::nat) (fst (subscribe (0::nat) wsClient)))
     (fst (subscribe (0::nat) (fst (subscribe (0::nat) wsClient))))
     \<noteq> fst (subscribe (0::nat) wsClient)"
  by (simp add: subscribe_def unsubscribe_def wsClient_def)

section \<open>Channel filtering\<close>

lemma forEach_all: "\<forall>h\<in>set hs. \<not> throws h m \<Longrightarrow> forEach_handlers throws m hs = hs"
  by (induction hs) simp_all

lemma has_dataD:
  "has_data m \<Longrightarrow> \<exists>kvs d. m = JObj kvs \<and> map_of (rev kvs) ''data'' = Some d \<and> d \<noteq> JNull"
  by (cases m) (auto simp: has_data_def member_def split: option.splits)

lemma member_not_null: "d \<noteq> JNull \<Longrightarrow> \<exists>a. member k d = Inr a"
  by (cases d) (simp_all add: member_def)

lemma handler_with_data: "has_data m \<Longrightarrow> snd (handler never_raises h m) = False"
proof -
  assume "has_data m"
  then obtain kvs d where m: "m = JObj kvs" "map_of (rev kvs) ''data'' = Some d" "d \<noteq> JNull"
    using has_dataD by blast
  from m(3) obtain a where a: "member ''action'' d = Inr a"
    using member_not_null by blast
  show ?thesis
  proof (cases h)
    case (RealtimeUpdates i ch cb)
    have "member ''channel'' m = Inr (map_of (rev kvs) ''channel'')"
         "member ''data'' m = Inr (Some d)"
      using m by (simp_all add: member_def)
    with a RealtimeUpdates show ?thesis by (simp add: never_raises_def)
  next
    case (WebSocketHook j)
    have "member ''data'' m = Inr (Some d)" using m by (simp add: member_def)
    with WebSocketHook show ?thesis by simp
  qed
qed

lemma dispatch_with_data:
  assumes "parse raw = Some m" and "has_data m"
  shows "dispatch never_raises parse raw c =
           concat (map (\<lambda>h. map (Pair h) (fst (handler never_raises h m))) (messageHandlers c))"
proof -
  have "forEach_handlers (\<lambda>h m. snd (handler never_raises h m)) m (messageHandlers c)
          = messageHandlers c"
    by (rule forEach_all) (simp add: handler_with_data [OF assms(2)])
  with assms(1) show ?thesis
    by (simp add: dispatch_def onmessage_def comp_def)
qed

lemma dispatch_mem_with_data:
  assumes "parse raw = Some m" and "has_data m"
  shows "((h, x) \<in> set (dispatch never_raises parse raw c)) =
           (h \<in> set (messageHandlers c) \<and> x \<in> set (fst (handler never_raises h m)))"
  unfolding dispatch_with_data [where parse = parse and raw = raw, OF assms] by auto

lemma dispatch_None: "parse raw = None \<Longrightarrow> dispatch raises parse raw c = []"
  by (simp add: dispatch_def onmessage_def)

lemma channel_name_inj: "channel_name a = channel_name b \<Longrightarrow> a = b"
  by (cases a; cases b) simp_all

text \<open>
  On a message whose \<open>data\<close> is there and not \<open>null\<close>, with callbacks that do not throw,
  every subscribed closure runs, and the closure of a subscription on channel \<open>ch\<close>
  calls its callback if and only if \<open>message.channel\<close> is the name of \<open>ch\<close>.
\<close>

lemma realtime_channel_filter_with_data:
  assumes "parse raw = Some m" and "has_data m"
    and "RealtimeUpdates i ch cb \<in> set (messageHandlers c)"
  shows "(\<exists>x. (RealtimeUpdates i ch cb, x) \<in> set (dispatch never_raises parse raw c))
           = (member ''channel'' m = Inr (Some (JStr (channel_name ch))))"
proof -
  from assms(2) obtain kvs d where m: "m = JObj kvs" "map_of (rev kvs) ''data'' = Some d" "d \<noteq> JNull"
    using has_dataD by blast
  from m(3) obtain a where a: "member ''action'' d = Inr a"
    using member_not_null by blast
  have calls: "fst (handler never_raises (RealtimeUpdates i ch cb) m) =
          (if member ''channel'' m = Inr (Some (JStr (channel_name ch)))
           then [OnUpdate cb a d] else [])"
    using m a by (simp add: member_def)
  show ?thesis
    unfolding dispatch_mem_with_data [where parse = parse and raw = raw, OF assms(1,2)] calls
    using assms(3) by auto
qed

text \<open>
  C4 fails on the code for a message without \<open>data\<close>. The client receives a JSON
  object whose only member is \<open>channel\<close>, with the value \<open>servers\<close>, while two
  subscriptions made through \<open>useRealtimeUpdates\<close> on channel \<open>servers\<close> are registered.
  The first closure finds \<open>message.channel\<close> equal to its channel and evaluates
  \<open>message.data.action\<close>, which throws; the \<open>catch\<close> of \<open>onmessage\<close> takes the
  exception, so neither callback is called and the second closure is not even run. The
  same happens when \<open>data\<close> is \<open>null\<close>. The closure of \<open>useWebSocket\<close> reads
  \<open>message.data?.action\<close> and does not throw on that message. With a \<open>data\<close> object in
  the message both callbacks are called.
\<close>

theorem realtime_update_lost_without_data:
  "dispatch never_raises Some (JObj [(''channel'', JStr ''servers'')])
     (fst (useRealtimeUpdates 1 ch_servers ''loadData''
        (fst (useRealtimeUpdates 0 ch_servers ''loadServers'' wsClient)))) = [] \<and>
   onmessage Some (\<lambda>h m. snd (handler never_raises h m)) (JObj [(''channel'', JStr ''servers'')])
     (fst (useRealtimeUpdates 1 ch_servers ''loadData''
        (fst (useRealtimeUpdates 0 ch_servers ''loadServers'' wsClient))))
     = [(RealtimeUpdates 0 ch_servers ''loadServers'', JObj [(''channel'', JStr ''servers'')])] \<and>
   handler never_raises (RealtimeUpdates 0 ch_servers ''loadServers'')
     (JObj [(''channel'', JStr ''servers'')]) = ([], True) \<and>
   handler never_raises (RealtimeUpdates 0 ch_servers ''loadServers'')
     (JObj [(''channel'', JStr ''servers''), (''data'', JNull)]) = ([], True) \<and>
   handler never_raises (WebSocketHook 2 :: string MessageHandler)
     (JObj [(''channel'', JStr ''servers'')])
     = ([SetLastMessage (JObj [(''channel'', JStr ''servers'')])], False) \<and>
   dispatch never_raises Some
     (JObj [(''channel'', JStr ''servers''), (''data'', JObj [(''action'', JStr ''created'')])])
     (fst (useRealtimeUpdates 1 ch_servers ''loadData''
        (fst (useRealtimeUpdates 0 ch_servers ''loadServers'' wsClient))))
     = [(RealtimeUpdates 0 ch_servers ''loadServers'',
         OnUpdate ''loadServers'' (Some (JStr ''created'')) (JObj [(''action'', JStr ''created'')])),
        (RealtimeUpdates 1 ch_servers ''loadData'',
         OnUpdate ''loadData'' (Some (JStr ''created'')) (JObj [(''action'', JStr ''created'')]))]"
  by (simp add: dispatch_def onmessage_def useRealtimeUpdates_def subscribe_def wsClient_def
      member_def optional_member_def never_raises_def)

section \<open>Events only trigger a reload\<close>
















section \<open>The lines a bulk import submits\<close>

lemma js_split_not_Nil: "js_split sep s \<noteq> []"
  by (induction s) (auto split: list.splits)

text \<open>
  \<open>js_split\<close> cuts the text at every separator and nowhere else: joining the pieces
  with the separator gives the text back, and no piece holds a separator.
\<close>

lemma js_split_join: "concat (map (\<lambda>l. l @ [sep]) (js_split sep s)) = s @ [sep]"
proof (induction s)
  case Nil
  show ?case by simp
next
  case (Cons c cs)
  show ?case
  proof (cases "c = sep")
    case True
    with Cons show ?thesis by simp
  next
    case False
    obtain l ls where split: "js_split sep cs = l # ls"
      using js_split_not_Nil [of sep cs] by (cases "js_split sep cs") auto
    with Cons False show ?thesis by simp
  qed
qed

lemma js_split_no_sep: "l \<in> set (js_split sep s) \<Longrightarrow> sep \<notin> set l"
proof (induction s arbitrary: l)
  case Nil
  then show ?case by simp
next
  case (Cons c cs)
  show ?case
  proof (cases "c = sep")
    case True
    with Cons show ?thesis by auto
  next
    case False
    obtain k ks where split: "js_split sep cs = k # ks"
      using js_split_not_Nil [of sep cs] by (cases "js_split sep cs") auto
    with Cons.prems False have "l = c # k \<or> l \<in> set ks" by simp
    with Cons.IH [of k] Cons.IH [of l] split False show ?thesis by auto
  qed
qed

text \<open>
  \<open>trim\<close> removes a run of whitespace at each end and nothing else, and what is left
  neither starts nor ends with whitespace.
\<close>

lemma trim_decomposition:
  "s = takeWhile is_whitespace s @ trim s @ rev (takeWhile is_whitespace (rev (dropWhile is_whitespace s)))"
proof -
  let ?d = "dropWhile is_whitespace s"
  have "rev (rev ?d) = rev (takeWhile is_whitespace (rev ?d) @ dropWhile is_whitespace (rev ?d))"
    by (simp only: takeWhile_dropWhile_id)
  then have "?d = trim s @ rev (takeWhile is_whitespace (rev ?d))"
    by (simp only: rev_rev_ident rev_append trim_def)
  moreover have "s = takeWhile is_whitespace s @ ?d"
    by simp
  ultimately show ?thesis by metis
qed

lemma trim_ends:
  assumes "trim s \<noteq> []"
  shows "\<not> is_whitespace (hd (trim s)) \<and> \<not> is_whitespace (last (trim s))"
proof -
  let ?d = "dropWhile is_whitespace s"
  let ?e = "dropWhile is_whitespace (rev ?d)"
  have e: "?e \<noteq> []" using assms by (simp add: trim_def)
  then have last: "\<not> is_whitespace (hd ?e)"
    by (rule hd_dropWhile)
  have "last (trim s) = hd ?e"
    using e by (simp add: trim_def last_rev)
  moreover have "\<not> is_whitespace (hd (trim s))"
  proof -
    have d: "?d \<noteq> []"
    proof
      assume "?d = []"
      then have "?e = []" by (simp del: dropWhile_eq_Nil_conv)
      with e show False by simp
    qed
    then have "\<not> is_whitespace (hd ?d)" by (rule hd_dropWhile)
    moreover have "hd (trim s) = hd ?d"
    proof -
      have "rev (rev ?d) = rev (takeWhile is_whitespace (rev ?d) @ ?e)"
        by (simp only: takeWhile_dropWhile_id)
      then have "?d = trim s @ rev (takeWhile is_whitespace (rev ?d))"
        by (simp only: rev_rev_ident rev_append trim_def)
      with assms show ?thesis by (metis hd_append2)
    qed
    ultimately show ?thesis by simp
  qed
  ultimately show ?thesis using last by simp
qed

lemma trim_whitespace_only: "(trim s = []) = (\<forall>c\<in>set s. is_whitespace c)"
proof
  assume "\<forall>c\<in>set s. is_whitespace c"
  then have "dropWhile is_whitespace s = []" by (simp add: dropWhile_eq_Nil_conv)
  then show "trim s = []" by (simp add: trim_def del: dropWhile_eq_Nil_conv)
next
  let ?d = "dropWhile is_whitespace s"
  assume "trim s = []"
  then have all: "\<forall>x\<in>set ?d. is_whitespace x"
    by (simp add: trim_def dropWhile_eq_Nil_conv)
  have "?d = []"
  proof (rule ccontr)
    assume d: "?d \<noteq> []"
    then have "\<not> is_whitespace (hd ?d)" by (rule hd_dropWhile)
    moreover have "hd ?d \<in> set ?d" using d by (rule hd_in_set)
    ultimately show False using all by blast
  qed
  then show "\<forall>c\<in>set s. is_whitespace c" by (simp add: dropWhile_eq_Nil_conv)
qed

lemma trimmed_nonempty_lines:
  "filter (\<lambda>line. length line > 0) (map trim ls) =
     map trim (filter (\<lambda>l. \<not> list_all is_whitespace l) ls)"
  by (induction ls) (simp_all add: trim_whitespace_only list_all_iff)

lemma no_trimmed_lines:
  "(length (filter (\<lambda>line. length line > 0) (map trim ls)) = 0) =
     (\<forall>l\<in>set ls. list_all is_whitespace l)"
  by (simp add: filter_empty_conv trim_whitespace_only list_all_iff)

text \<open>
  C5. Both bulk forms submit the lines of the text that are not blank, each trimmed,
  in the order of the text; when every line is blank they set the form error and issue
  no request. The lines are the pieces between line feeds (joined with line feeds they
  are the text), and a trimmed line is the line without the whitespace at its two ends.
\<close>

theorem bulk_import_lines:
  "handleBulkImport bulkText capacity_mode description =
     (if \<forall>l\<in>set (js_split 10 bulkText). list_all is_whitespace l
      then FormError ''Please enter at least one server''
      else Submitted
             \<lparr>bc_servers = map trim (filter (\<lambda>l. \<not> list_all is_whitespace l) (js_split 10 bulkText)),
              bc_capacity_mode = capacity_mode,
              bc_description = (if description = [] then None else Some description)\<rparr>) \<and>
   handleBulkCreate bulkDomains bulkTags =
     (if \<forall>l\<in>set (js_split 10 bulkDomains). list_all is_whitespace l
      then FormError ''Please enter at least one domain''
      else Submitted
             \<lparr>bd_domains = map trim (filter (\<lambda>l. \<not> list_all is_whitespace l) (js_split 10 bulkDomains)),
              bd_tags =
                (if \<forall>t\<in>set (js_split 44 bulkTags). list_all is_whitespace t then None
                 else Some (map trim (filter (\<lambda>t. \<not> list_all is_whitespace t)
                                        (js_split 44 bulkTags))))\<rparr>) \<and>
   concat (map (\<lambda>l. l @ [10]) (js_split 10 text)) = text @ [10] \<and>
   (\<forall>l\<in>set (js_split 10 text). 10 \<notin> set l) \<and>
   line = takeWhile is_whitespace line @ trim line @
            rev (takeWhile is_whitespace (rev (dropWhile is_whitespace line))) \<and>
   (trim line \<noteq> [] \<longrightarrow> \<not> is_whitespace (hd (trim line)) \<and> \<not> is_whitespace (last (trim line)))"
proof (intro conjI)
  show "handleBulkImport bulkText capacity_mode description =
     (if \<forall>l\<in>set (js_split 10 bulkText). list_all is_whitespace l
      then FormError ''Please enter at least one server''
      else Submitted
             \<lparr>bc_servers = map trim (filter (\<lambda>l. \<not> list_all is_whitespace l) (js_split 10 bulkText)),
              bc_capacity_mode = capacity_mode,
              bc_description = (if description = [] then None else Some description)\<rparr>)"
  proof -
    define F where "F = filter (\<lambda>line. length line > 0) (map trim (js_split 10 bulkText))"
    have h: "handleBulkImport bulkText capacity_mode description =
        (if length F = 0 then FormError ''Please enter at least one server''
         else Submitted \<lparr>bc_servers = F, bc_capacity_mode = capacity_mode,
                bc_description = (if description = [] then None else Some description)\<rparr>)"
      unfolding F_def handleBulkImport_def Let_def by (rule refl)
    have c: "(length F = 0) = (\<forall>l\<in>set (js_split 10 bulkText). list_all is_whitespace l)"
      unfolding F_def by (rule no_trimmed_lines)
    have v: "F = map trim (filter (\<lambda>l. \<not> list_all is_whitespace l) (js_split 10 bulkText))"
      unfolding F_def by (rule trimmed_nonempty_lines)
    show ?thesis
      unfolding h unfolding c unfolding v by (rule refl)
  qed
next
  show "handleBulkCreate bulkDomains bulkTags =
     (if \<forall>l\<in>set (js_split 10 bulkDomains). list_all is_whitespace l
      then FormError ''Please enter at least one domain''
      else Submitted
             \<lparr>bd_domains = map trim (filter (\<lambda>l. \<not> list_all is_whitespace l) (js_split 10 bulkDomains)),
              bd_tags =
                (if \<forall>t\<in>set (js_split 44 bulkTags). list_all is_whitespace t then None
                 else Some (map trim (filter (\<lambda>t. \<not> list_all is_whitespace t)
                                        (js_split 44 bulkTags))))\<rparr>)"
  proof -
    define F where "F = filter (\<lambda>d. length d > 0) (map trim (js_split 10 bulkDomains))"
    define T where "T = filter (\<lambda>t. length t > 0) (map trim (js_split 44 bulkTags))"
    have h: "handleBulkCreate bulkDomains bulkTags =
        (if length F = 0 then FormError ''Please enter at least one domain''
         else Submitted \<lparr>bd_domains = F, bd_tags = (if length T > 0 then Some T else None)\<rparr>)"
      unfolding F_def T_def handleBulkCreate_def Let_def by (rule refl)
    have c: "(length F = 0) = (\<forall>l\<in>set (js_split 10 bulkDomains). list_all is_whitespace l)"
      unfolding F_def by (rule no_trimmed_lines)
    have v: "F = map trim (filter (\<lambda>l. \<not> list_all is_whitespace l) (js_split 10 bulkDomains))"
      unfolding F_def by (rule trimmed_nonempty_lines)
    have "(T = []) = (\<forall>t\<in>set (js_split 44 bulkTags). list_all is_whitespace t)"
      unfolding T_def by (simp add: filter_empty_conv trim_whitespace_only list_all_iff)
    then have ct: "(length T > 0) = (\<not> (\<forall>t\<in>set (js_split 44 bulkTags). list_all is_whitespace t))"
      by simp
    have vt: "T = map trim (filter (\<lambda>t. \<not> list_all is_whitespace t) (js_split 44 bulkTags))"
      unfolding T_def by (rule trimmed_nonempty_lines)
    have "(if length T > 0 then Some T else None) =
          (if \<forall>t\<in>set (js_split 44 bulkTags). list_all is_whitespace t then None
           else Some (map trim (filter (\<lambda>t. \<not> list_all is_whitespace t) (js_split 44 bulkTags))))"
      unfolding ct using vt by simp
    then show ?thesis
      unfolding h unfolding c unfolding v by simp
  qed
next
  show "concat (map (\<lambda>l. l @ [10]) (js_split 10 text)) = text @ [10]"
    by (rule js_split_join)
next
  show "\<forall>l\<in>set (js_split 10 text). 10 \<notin> set l"
    using js_split_no_sep by blast
next
  show "line = takeWhile is_whitespace line @ trim line @
            rev (takeWhile is_whitespace (rev (dropWhile is_whitespace line)))"
    by (rule trim_decomposition)
next
  show "trim line \<noteq> [] \<longrightarrow> \<not> is_whitespace (hd (trim line)) \<and> \<not> is_whitespace (last (trim line))"
    using trim_ends by blast
qed

lemmas bulk_defs = handleBulkImport_def handleBulkCreate_def trim_def is_whitespace_def Let_def

theorem bulk_import_lines_witness:
  "handleBulkImport [49, 46, 50, 32, 112, 119, 10, 32, 32, 10, 9, 51, 46, 52, 13, 10] high [] =
     Submitted \<lparr>bc_servers = [[49, 46, 50, 32, 112, 119], [51, 46, 52]],
                bc_capacity_mode = high, bc_description = None\<rparr> \<and>
   handleBulkImport [32, 10, 9, 13, 10] low [98] = FormError ''Please enter at least one server'' \<and>
   handleBulkCreate [97, 46, 105, 111, 32, 10, 10, 98, 46, 105, 111] [] =
     Submitted \<lparr>bd_domains = [[97, 46, 105, 111], [98, 46, 105, 111]], bd_tags = None\<rparr> \<and>
   js_split 10 [49, 46, 50, 32, 112, 119, 10, 32, 32, 10, 9, 51, 46, 52, 13, 10] =
     [[49, 46, 50, 32, 112, 119], [32, 32], [9, 51, 46, 52, 13], []] \<and>
   trim [9, 51, 46, 52, 13] = [51, 46, 52]"
  using bulk_import_lines
    [of "[49, 46, 50, 32, 112, 119, 10, 32, 32, 10, 9, 51, 46, 52, 13, 10]" high "[]"
        "[97, 46, 105, 111, 32, 10, 10, 98, 46, 105, 111]" "[]"
        "[49, 46, 50, 32, 112, 119, 10, 32, 32, 10, 9, 51, 46, 52, 13, 10]" "[9, 51, 46, 52, 13]"]
  by (simp add: bulk_defs)

section \<open>Failed responses\<close>

lemma fetchApi_never_succeeds_on_failure: "\<not> ok r \<Longrightarrow> \<exists>e. fetchApi toStr r = Inl e"
  by (simp add: fetchApi_def Let_def split: sum.splits option.splits)

text \<open>
  C6, as the code has it. On a response that is not ok the call never returns a value.
  When the body is not JSON the error is \<open>ApiError(status, 'Unknown error')\<close>; when the
  body is a JSON object whose \<open>detail\<close> is a non-empty string the error is
  \<open>ApiError(status, detail)\<close>; when the body is any JSON value but \<open>null\<close> with no
  \<open>detail\<close>, or a falsy one, the error is \<open>ApiError(status, 'Request failed')\<close>. On a
  204 the call returns \<open>undefined\<close> whatever the body is.
\<close>

theorem fetchApi_errors:
  "(\<not> ok r \<longrightarrow> (\<exists>e. fetchApi toStr r = Inl e)) \<and>
   (\<not> ok r \<and> body r = None \<longrightarrow> fetchApi toStr r = Inl (ApiError (status r) ''Unknown error'')) \<and>
   (\<not> ok r \<and> body r = Some (JObj kvs) \<and> map_of (rev kvs) ''detail'' = Some (JStr d) \<and> d \<noteq> []
      \<longrightarrow> fetchApi toStr r = Inl (ApiError (status r) d)) \<and>
   (\<not> ok r \<and> body r = Some j \<and>
      (get_detail j = Inr None \<or> (\<exists>v. get_detail j = Inr (Some v) \<and> \<not> truthy v))
      \<longrightarrow> fetchApi toStr r = Inl (ApiError (status r) ''Request failed'')) \<and>
   (\<not> ok r \<and> body r \<noteq> Some JNull \<longrightarrow> (\<exists>msg. fetchApi toStr r = Inl (ApiError (status r) msg))) \<and>
   (status r = 204 \<longrightarrow> fetchApi toStr r = Inr Undefined)"
proof (intro conjI impI)
  assume "\<not> ok r"
  then show "\<exists>e. fetchApi toStr r = Inl e"
    by (rule fetchApi_never_succeeds_on_failure)
next
  assume "\<not> ok r \<and> body r = None"
  then show "fetchApi toStr r = Inl (ApiError (status r) ''Unknown error'')"
    by (simp add: fetchApi_def get_detail_def truthy_def error_message_def)
next
  assume "\<not> ok r \<and> body r = Some (JObj kvs) \<and> map_of (rev kvs) ''detail'' = Some (JStr d) \<and> d \<noteq> []"
  then show "fetchApi toStr r = Inl (ApiError (status r) d)"
    by (simp add: fetchApi_def get_detail_def truthy_def error_message_def)
next
  assume "\<not> ok r \<and> body r = Some j \<and>
      (get_detail j = Inr None \<or> (\<exists>v. get_detail j = Inr (Some v) \<and> \<not> truthy v))"
  then show "fetchApi toStr r = Inl (ApiError (status r) ''Request failed'')"
    by (auto simp: fetchApi_def)
next
  assume a: "\<not> ok r \<and> body r \<noteq> Some JNull"
  show "\<exists>msg. fetchApi toStr r = Inl (ApiError (status r) msg)"
  proof (cases "body r")
    case None
    with a show ?thesis by (simp add: fetchApi_def get_detail_def)
  next
    case (Some j)
    with a have "j \<noteq> JNull" by simp
    then have "\<exists>d. get_detail j = Inr d"
      by (cases j) (simp_all add: get_detail_def)
    then obtain d where "get_detail j = Inr d" ..
    with a Some show ?thesis by (simp add: fetchApi_def)
  qed
next
  assume "status r = 204"
  then show "fetchApi toStr r = Inr Undefined"
    by (simp add: fetchApi_def ok_def)
qed

lemmas fetch_defs = fetchApi_def ok_def get_detail_def truthy_def error_message_def Let_def

theorem fetchApi_errors_witness:
  "\<not> ok \<lparr>status = 404, body = Some (JObj [(''detail'', JStr ''Server not found'')])\<rparr> \<and>
   fetchApi ToString_object
       \<lparr>status = 404, body = Some (JObj [(''detail'', JStr ''Server not found'')])\<rparr>
     = Inl (ApiError 404 ''Server not found'') \<and>
   fetchApi ToString_object \<lparr>status = 502, body = None\<rparr>
     = Inl (ApiError 502 ''Unknown error'') \<and>
   fetchApi ToString_object \<lparr>status = 204, body = None\<rparr> = Inr Undefined"
  using fetchApi_errors
    [of "\<lparr>status = 404, body = Some (JObj [(''detail'', JStr ''Server not found'')])\<rparr>"
        ToString_object "[(''detail'', JStr ''Server not found'')]" "''Server not found''"
        "JObj [(''detail'', JStr ''Server not found'')]"]
  by (simp add: fetch_defs)

text \<open>
  C6 as stated fails twice. A failed response whose body is the JSON text \<open>null\<close> makes
  the call throw a TypeError (reading \<open>detail\<close> of \<open>null\<close>), not an ApiError. And a failed
  response whose JSON body has no \<open>detail\<close> gives the message \<open>'Request failed'\<close>, which
  is neither supplied by the server nor the fallback for a body that does not parse.
\<close>

theorem fetchApi_null_body_and_missing_detail:
  "\<not> ok \<lparr>status = 500, body = Some JNull\<rparr> \<and>
   fetchApi ToString_object \<lparr>status = 500, body = Some JNull\<rparr> = Inl TypeError \<and>
   fetchApi ToString_object \<lparr>status = 500, body = Some (JObj [])\<rparr>
     = Inl (ApiError 500 ''Request failed'')"
  by (simp add: fetch_defs)

section \<open>The capacity bars\<close>

lemma capacity_bar_width_nonzero:
  "max_domains server \<noteq> 0 \<Longrightarrow>
   capacity_bar_width server =
     Fin (of_int (current_domains server) / of_int (max_domains server) * 100)"
  by (simp add: capacity_bar_width_def)

lemma utilization_bar_width_finite:
  "utilization_bar_width d =
     Fin (of_int (mu_used d) / of_int (max (mu_capacity d) 1) * 100) \<and>
   finite_number (utilization_bar_width d)"
proof -
  have "max (of_int (mu_capacity d)) (1::rat) \<noteq> 0"
    by (simp add: max_def)
  then show ?thesis
    by (simp add: utilization_bar_width_def finite_number_def max_def)
qed

text \<open>
  C1 fails on the servers page: the capacity column divides by \<open>max_domains\<close> with no
  guard, so a row with \<open>max_domains = 0\<close> gives a bar width of NaN (no domains) or of
  Infinity (some domains). The dashboard's bar guards the same division with
  \<open>Math.max(data.capacity, 1)\<close> (\<open>utilization_bar_width_finite\<close>).
\<close>

theorem capacity_bar_width_zero_max:
  "capacity_bar_width \<lparr>current_domains = 0, max_domains = 0\<rparr> = NaN \<and>
   capacity_bar_width \<lparr>current_domains = 3, max_domains = 0\<rparr> = PosInf \<and>
   utilization_bar_width \<lparr>mu_servers = 0, mu_used = 0, mu_capacity = 0\<rparr> = Fin 0"
  by (simp add: capacity_bar_width_def utilization_bar_width_def)

section \<open>Capacity modes\<close>

text \<open>
  C2. There are exactly three capacity modes, with 5, 7 and 10 slots. The options the
  forms offer are these three modes in this order: the value of each is the mode's
  string \<open>1:N\<close>, and its label spells out the same \<open>N\<close>, the mode's slot count.
\<close>

theorem capacity_options_table:
  "(UNIV :: CapacityMode set) = {low, medium, high} \<and>
   map slotsFor [low, medium, high] = [5, 7, 10] \<and>
   (\<forall>m. mode_value m = ''1:'' @ decimal (slotsFor m)) \<and>
   CAPACITY_OPTIONS =
     map (\<lambda>m. \<lparr>opt_value = mode_value m,
               opt_label = mode_value m @ '' ('' @ decimal (slotsFor m) @ '' domains max)''\<rparr>)
       [low, medium, high] \<and>
   distinct (map opt_value CAPACITY_OPTIONS)"
proof (intro conjI allI)
  show "(UNIV :: CapacityMode set) = {low, medium, high}"
    using CapacityMode.exhaust by auto
next
  show "map slotsFor [low, medium, high] = [5, 7, 10]" by simp
next
  fix m show "mode_value m = ''1:'' @ decimal (slotsFor m)"
    by (cases m) (simp_all add: digit_def)
next
  show "CAPACITY_OPTIONS =
     map (\<lambda>m. \<lparr>opt_value = mode_value m,
               opt_label = mode_value m @ '' ('' @ decimal (slotsFor m) @ '' domains max)''\<rparr>)
       [low, medium, high]"
    by (simp add: CAPACITY_OPTIONS_def digit_def)
next
  show "distinct (map opt_value CAPACITY_OPTIONS)"
    by (simp add: CAPACITY_OPTIONS_def)
qed

section \<open>Concurrent assigns\<close>

lemma length_filter_update:
  "i < length xs \<Longrightarrow>
   length (filter P (xs[i := v])) + (if P (xs ! i) then 1 else 0) =
   length (filter P xs) + (if P v then 1 else 0)"
proof (induction xs arbitrary: i)
  case Nil
  then show ?case by simp
next
  case (Cons x xs)
  show ?case
  proof (cases i)
    case 0
    then show ?thesis by simp
  next
    case (Suc k)
    with Cons.prems have "k < length xs" by simp
    from Cons.IH [OF this] Suc show ?thesis by simp
  qed
qed

lemma successes_update:
  "i < length (calls st) \<Longrightarrow> calls st ! i \<noteq> Finished None \<Longrightarrow>
   successes (st\<lparr>calls := (calls st)[i := c]\<rparr>) =
     successes st + (if c = Finished None then 1 else 0)"
  using length_filter_update [of i "calls st" "\<lambda>c. c = Finished None" c]
  by (simp add: successes_def)

lemma issued_inv:
  "\<forall>d\<in>set ds. assigned_to L d = None \<Longrightarrow> srv_current L s \<le> srv_max L s \<Longrightarrow>
   store_inv ds s L (issued L (length ds))"
  by (simp add: store_inv_def issued_def successes_def)

lemma acquire_inv:
  assumes inv: "store_inv ds s L st" and i: "i < length ds"
    and w: "calls st ! i = Waiting" and free: "row_lock st = None"
  shows "store_inv ds s L (st\<lparr>row_lock := Some i, calls := (calls st)[i := Locked]\<rparr>)"
proof -
  from inv i have len: "i < length (calls st)" by (simp add: store_inv_def)
  have succ: "successes (st\<lparr>row_lock := Some i, calls := (calls st)[i := Locked]\<rparr>) = successes st"
    using length_filter_update [of i "calls st" "\<lambda>c. c = Finished None" Locked] len w
    by (simp add: successes_def)
  show ?thesis
    using inv i w free len unfolding store_inv_def succ
    by (auto simp: nth_list_update)
qed

lemma read_inv:
  assumes inv: "store_inv ds s L st" and i: "i < length ds"
    and l: "calls st ! i = Locked"
  shows "store_inv ds s L
           (st\<lparr>calls := (calls st)
                 [i := HasRead (srv_current (rows st) s) (assigned_to (rows st) (ds ! i))]\<rparr>)"
proof -
  from inv i have len: "i < length (calls st)" by (simp add: store_inv_def)
  have succ: "successes (st\<lparr>calls := (calls st)
                 [i := HasRead (srv_current (rows st) s) (assigned_to (rows st) (ds ! i))]\<rparr>)
               = successes st"
    using length_filter_update [of i "calls st" "\<lambda>c. c = Finished None"
        "HasRead (srv_current (rows st) s) (assigned_to (rows st) (ds ! i))"] len l
    by (simp add: successes_def)
  show ?thesis
    using inv i l len unfolding store_inv_def succ
    by (auto simp: nth_list_update)
qed

lemma read_values:
  assumes inv: "store_inv ds s L st" and i: "i < length ds"
    and h: "calls st ! i = HasRead r a"
  shows "r = srv_current (rows st) s" and "a = None" and "row_lock st = Some i"
proof -
  from inv i h show r: "r = srv_current (rows st) s"
    unfolding store_inv_def by blast
  from inv i h have "a = assigned_to (rows st) (ds ! i)"
    unfolding store_inv_def by blast
  moreover have "assigned_to (rows st) (ds ! i) = None"
  proof -
    from inv have "\<forall>i < length ds. calls st ! i \<noteq> Finished None \<longrightarrow>
        assigned_to (rows st) (ds ! i) = None"
      by (simp add: store_inv_def)
    with i h show ?thesis by simp
  qed
  ultimately show "a = None" by simp
  from inv i h show "row_lock st = Some i"
    unfolding store_inv_def by blast
qed

lemma reject_inv:
  assumes inv: "store_inv ds s L st" and i: "i < length ds"
    and h: "calls st ! i = HasRead r a" and full: "srv_max (rows st) s - r = 0"
  shows "store_inv ds s L
           (st\<lparr>row_lock := None, calls := (calls st)[i := Finished (Some ServerAtCapacity)]\<rparr>)"
proof -
  from inv i have len: "i < length (calls st)" by (simp add: store_inv_def)
  note rv = read_values [OF inv i h]
  have succ: "successes (st\<lparr>row_lock := None,
                 calls := (calls st)[i := Finished (Some ServerAtCapacity)]\<rparr>) = successes st"
    using length_filter_update [of i "calls st" "\<lambda>c. c = Finished None"
        "Finished (Some ServerAtCapacity)"] len h
    by (simp add: successes_def)
  from inv have "srv_current (rows st) s \<le> srv_max L s" and "srv_max (rows st) = srv_max L"
    by (simp_all add: store_inv_def)
  with full rv(1) have top: "srv_current (rows st) s = srv_max L s" by simp
  show ?thesis
    using inv i h len rv(3) top unfolding store_inv_def succ
    by (auto simp: nth_list_update)
qed

lemma accept_inv:
  assumes inv: "store_inv ds s L st" and d: "distinct ds" and i: "i < length ds"
    and h: "calls st ! i = HasRead r a" and room: "srv_max (rows st) s - r \<noteq> 0"
  shows "store_inv ds s L
           (st\<lparr>rows := (rows st)
                   \<lparr>assigned_to := (assigned_to (rows st))(ds ! i \<mapsto> s),
                    srv_current := (srv_current (rows st))(s := r + 1)\<rparr>,
               row_lock := None,
               calls := (calls st)[i := Finished None]\<rparr>)"
proof -
  from inv i have len: "i < length (calls st)" by (simp add: store_inv_def)
  note rv = read_values [OF inv i h]
  have succ: "successes (st\<lparr>rows := (rows st)
                   \<lparr>assigned_to := (assigned_to (rows st))(ds ! i \<mapsto> s),
                    srv_current := (srv_current (rows st))(s := r + 1)\<rparr>,
               row_lock := None,
               calls := (calls st)[i := Finished None]\<rparr>) = Suc (successes st)"
    using length_filter_update [of i "calls st" "\<lambda>c. c = Finished None" "Finished None"] len h
    by (simp add: successes_def)
  from inv have mx: "srv_max (rows st) = srv_max L" by (simp add: store_inv_def)
  with room rv(1) have below: "srv_current (rows st) s < srv_max L s" by simp
  have other: "ds ! k \<noteq> ds ! i" if "k < length ds" "k \<noteq> i" for k
    using d i that by (simp add: nth_eq_iff_index_eq)
  show ?thesis
    using inv i h len rv(1) rv(3) below other unfolding store_inv_def succ
    by (auto simp: nth_list_update)
qed

lemma call_step_inv:
  assumes inv: "store_inv ds s L st" and d: "distinct ds"
  shows "store_inv ds s L (call_step ds s i st)"
proof (cases "i < length (calls st) \<and> i < length ds")
  case False
  then have "call_step ds s i st = st" by (auto simp: call_step_def)
  with inv show ?thesis by simp
next
  case True
  then have i: "i < length ds" by simp
  show ?thesis
  proof (cases "calls st ! i")
    case Waiting
    show ?thesis
    proof (cases "row_lock st")
      case None
      with acquire_inv [OF inv i Waiting None] True Waiting show ?thesis
        by (simp add: call_step_def)
    next
      case (Some j)
      with inv True Waiting show ?thesis by (simp add: call_step_def)
    qed
  next
    case Locked
    with read_inv [OF inv i Locked] True show ?thesis
      by (simp add: call_step_def)
  next
    case (HasRead r a)
    note rv = read_values [OF inv i HasRead]
    show ?thesis
    proof (cases "srv_max (rows st) s - r = 0")
      case full: True
      with reject_inv [OF inv i HasRead full] True HasRead rv(2) show ?thesis
        by (simp add: call_step_def)
    next
      case room: False
      with accept_inv [OF inv d i HasRead room] True HasRead rv(2) show ?thesis
        by (simp add: call_step_def)
    qed
  next
    case (Finished out)
    with inv True show ?thesis by (simp add: call_step_def)
  qed
qed

lemma execute_inv:
  "store_inv ds s L st \<Longrightarrow> distinct ds \<Longrightarrow> store_inv ds s L (execute ds s schedule st)"
  unfolding execute_def by (induction schedule arbitrary: st) (simp_all add: call_step_inv)

lemma store_invD:
  assumes "store_inv ds s L st"
  shows "length (calls st) = length ds"
    and "srv_max (rows st) = srv_max L"
    and "srv_current (rows st) s = srv_current L s + successes st"
    and "srv_current (rows st) s \<le> srv_max L s"
    and "\<forall>i < length ds.
           (row_lock st = Some i) =
             (calls st ! i = Locked \<or> (\<exists>r a. calls st ! i = HasRead r a))"
    and "\<forall>j. row_lock st = Some j \<longrightarrow> j < length ds"
    and "\<forall>i < length ds. \<forall>e. calls st ! i = Finished (Some e) \<longrightarrow>
           e = ServerAtCapacity \<and> srv_current (rows st) s = srv_max L s"
  using assms unfolding store_inv_def by blast+

lemma two_kinds:
  "\<forall>c\<in>set xs. c = a \<or> c = b \<Longrightarrow> a \<noteq> b \<Longrightarrow>
   length xs = length (filter (\<lambda>c. c = a) xs) + length (filter (\<lambda>c. c = b) xs)"
  by (induction xs) auto

lemma returned_kinds:
  assumes inv: "store_inv ds s L st" and fin: "all_returned st"
  shows "\<forall>c\<in>set (calls st). c = Finished None \<or> c = Finished (Some ServerAtCapacity)"
proof
  fix c assume "c \<in> set (calls st)"
  then obtain i where i: "i < length (calls st)" and c: "calls st ! i = c"
    by (auto simp: in_set_conv_nth)
  from fin i c have "is_Finished c"
    by (auto simp: all_returned_def list_all_length)
  then obtain out where out: "c = Finished out" by (cases c) simp_all
  show "c = Finished None \<or> c = Finished (Some ServerAtCapacity)"
  proof (cases out)
    case None
    with out show ?thesis by simp
  next
    case (Some e)
    from store_invD(1,7) [OF inv] i c out Some have "e = ServerAtCapacity" by simp
    with out Some show ?thesis by simp
  qed
qed

lemma returned_outcomes:
  assumes inv: "store_inv ds s L st" and fin: "all_returned st"
    and le: "srv_current L s \<le> srv_max L s" and more: "remainingSlots L s < length ds"
  shows "successes st = remainingSlots L s \<and>
         capacity_failures st = length ds - remainingSlots L s \<and>
         srv_current (rows st) s = srv_max (rows st) s"
proof -
  note len = store_invD(1) [OF inv] and mx = store_invD(2) [OF inv]
    and cur = store_invD(3) [OF inv] and bound = store_invD(4) [OF inv]
    and failed = store_invD(7) [OF inv]
  have total: "length ds = successes st + capacity_failures st"
    using two_kinds [OF returned_kinds [OF inv fin]] len
    by (simp add: successes_def capacity_failures_def)
  from cur bound have few: "successes st \<le> remainingSlots L s"
    by (simp add: remainingSlots_def)
  with total more have "capacity_failures st \<noteq> 0" by simp
  then have "filter (\<lambda>c. c = Finished (Some ServerAtCapacity)) (calls st) \<noteq> []"
    by (simp add: capacity_failures_def)
  then obtain c where "c \<in> set (calls st)" and "c = Finished (Some ServerAtCapacity)"
    by (auto simp: filter_empty_conv)
  then obtain i where "i < length (calls st)"
    and "calls st ! i = Finished (Some ServerAtCapacity)"
    by (auto simp: in_set_conv_nth)
  with failed len have top: "srv_current (rows st) s = srv_max L s" by simp
  with cur le have "successes st = remainingSlots L s"
    by (simp add: remainingSlots_def)
  with total top mx show ?thesis by simp
qed

lemma sum_list_map_update:
  "i < length xs \<Longrightarrow>
   sum_list (map f (xs[i := v])) + f (xs ! i) = sum_list (map f xs) + (f v :: nat)"
proof (induction xs arbitrary: i)
  case Nil
  then show ?case by simp
next
  case (Cons x xs)
  show ?case
  proof (cases i)
    case 0
    then show ?thesis by simp
  next
    case (Suc k)
    with Cons.prems have "k < length xs" by simp
    from Cons.IH [OF this] Suc show ?thesis by simp
  qed
qed

lemma work_left_update:
  "i < length (calls st) \<Longrightarrow> steps_left c < steps_left (calls st ! i) \<Longrightarrow>
   work_left (st\<lparr>calls := (calls st)[i := c]\<rparr>) < work_left st"
  using sum_list_map_update [of i "calls st" steps_left c]
  by (simp add: work_left_def)

lemma call_step_progress:
  assumes inv: "store_inv ds s L st" and unfinished: "\<not> all_returned st"
  shows "\<exists>i. work_left (call_step ds s i st) < work_left st"
proof (cases "row_lock st")
  case None
  from unfinished obtain i where i: "i < length (calls st)" and nf: "\<not> is_Finished (calls st ! i)"
    by (auto simp: all_returned_def list_all_length)
  note len = store_invD(1) [OF inv] and lock = store_invD(5) [OF inv]
  from len lock None i have "calls st ! i \<noteq> Locked" and "\<forall>r a. calls st ! i \<noteq> HasRead r a"
    by auto
  with nf have w: "calls st ! i = Waiting"
    by (cases "calls st ! i") simp_all
  have "work_left (st\<lparr>calls := (calls st)[i := Locked]\<rparr>) < work_left st"
    using i w by (intro work_left_update) simp_all
  moreover have "work_left (call_step ds s i st) = work_left (st\<lparr>calls := (calls st)[i := Locked]\<rparr>)"
    using i len w None by (simp add: call_step_def work_left_def)
  ultimately have "work_left (call_step ds s i st) < work_left st" by simp
  then show ?thesis ..
next
  case (Some j)
  note len = store_invD(1) [OF inv] and lock = store_invD(5) [OF inv]
    and holder = store_invD(6) [OF inv]
  from holder Some have j: "j < length ds" by simp
  with lock Some have "calls st ! j = Locked \<or> (\<exists>r a. calls st ! j = HasRead r a)"
    by blast
  then show ?thesis
  proof
    assume l: "calls st ! j = Locked"
    have "work_left (st\<lparr>calls := (calls st)
        [j := HasRead (srv_current (rows st) s) (assigned_to (rows st) (ds ! j))]\<rparr>) < work_left st"
      using j len l by (intro work_left_update) simp_all
    moreover have "work_left (call_step ds s j st) =
        work_left (st\<lparr>calls := (calls st)
          [j := HasRead (srv_current (rows st) s) (assigned_to (rows st) (ds ! j))]\<rparr>)"
      using j len l by (simp add: call_step_def work_left_def)
    ultimately have "work_left (call_step ds s j st) < work_left st" by simp
    then show ?thesis ..
  next
    assume "\<exists>r a. calls st ! j = HasRead r a"
    then obtain r a where h: "calls st ! j = HasRead r a" by blast
    have "work_left (st\<lparr>calls := (calls st)[j := Finished out]\<rparr>) < work_left st" for out
      using j len h by (intro work_left_update) simp_all
    moreover have "\<exists>out. work_left (call_step ds s j st) =
        work_left (st\<lparr>calls := (calls st)[j := Finished out]\<rparr>)"
      using j len h by (auto simp: call_step_def work_left_def)
    ultimately show ?thesis by metis
  qed
qed

lemma some_schedule_returns:
  "store_inv ds s L st \<Longrightarrow> distinct ds \<Longrightarrow>
   \<exists>schedule. all_returned (execute ds s schedule st)"
proof (induction "work_left st" arbitrary: st rule: less_induct)
  case less
  show ?case
  proof (cases "all_returned st")
    case True
    then have "all_returned (execute ds s [] st)" by (simp add: execute_def)
    then show ?thesis ..
  next
    case False
    from call_step_progress [OF less.prems(1) False]
    obtain i where "work_left (call_step ds s i st) < work_left st" ..
    moreover have "store_inv ds s L (call_step ds s i st)"
      using less.prems by (rule call_step_inv)
    ultimately obtain schedule where "all_returned (execute ds s schedule (call_step ds s i st))"
      using less.hyps less.prems(2) by blast
    then have "all_returned (execute ds s (i # schedule) st)"
      by (simp add: execute_def)
    then show ?thesis ..
  qed
qed

text \<open>
  A call that runs its three steps with no other call in between does what \<open>assign\<close>
  does.
\<close>

lemma call_alone_is_assign:
  assumes "i < length (calls st)" and "i < length ds"
    and "calls st ! i = Waiting" and "row_lock st = None"
  shows "rows (execute ds s [i, i, i] st) =
           (case assign (ds ! i) s (rows st) of Inl e \<Rightarrow> rows st | Inr L' \<Rightarrow> L') \<and>
         calls (execute ds s [i, i, i] st) ! i =
           Finished (case assign (ds ! i) s (rows st) of Inl e \<Rightarrow> Some e | Inr L' \<Rightarrow> None) \<and>
         row_lock (execute ds s [i, i, i] st) = None"
  using assms
  by (simp add: execute_def call_step_def assign_def remainingSlots_def)

text \<open>
  C9. \<open>N\<close> concurrent calls of \<open>assign\<close> for distinct free domains against one server
  with \<open>R\<close> remaining slots, \<open>N > R\<close>. Under every interleaving of the calls' steps the
  counter never passes the maximum and is always the initial count plus the successes
  so far (no overflow, no lost update); once all calls have returned, exactly \<open>R\<close> have
  succeeded, the other \<open>N - R\<close> have failed with ServerAtCapacity, and
  \<open>current_domains = max_domains\<close>. And the calls can all return: no interleaving
  blocks them for good.
\<close>

theorem concurrent_assigns:
  assumes "distinct ds" and "\<forall>d\<in>set ds. assigned_to L d = None"
    and "srv_current L s \<le> srv_max L s" and "remainingSlots L s < length ds"
  shows "(\<forall>schedule.
            srv_current (rows (execute ds s schedule (issued L (length ds)))) s \<le> srv_max L s \<and>
            srv_current (rows (execute ds s schedule (issued L (length ds)))) s
              = srv_current L s + successes (execute ds s schedule (issued L (length ds))) \<and>
            (all_returned (execute ds s schedule (issued L (length ds))) \<longrightarrow>
               successes (execute ds s schedule (issued L (length ds))) = remainingSlots L s \<and>
               capacity_failures (execute ds s schedule (issued L (length ds)))
                 = length ds - remainingSlots L s \<and>
               srv_current (rows (execute ds s schedule (issued L (length ds)))) s
                 = srv_max (rows (execute ds s schedule (issued L (length ds)))) s)) \<and>
         (\<exists>schedule. all_returned (execute ds s schedule (issued L (length ds))))"
proof (intro conjI allI impI)
  fix schedule
  let ?st = "execute ds s schedule (issued L (length ds))"
  have inv: "store_inv ds s L ?st"
    using assms(1,2,3) by (intro execute_inv issued_inv)
  show "srv_current (rows ?st) s \<le> srv_max L s"
    by (rule store_invD(4) [OF inv])
  show "srv_current (rows ?st) s = srv_current L s + successes ?st"
    by (rule store_invD(3) [OF inv])
  assume fin: "all_returned ?st"
  note out = returned_outcomes [OF inv fin assms(3) assms(4)]
  from out show "successes ?st = remainingSlots L s" by simp
  from out show "capacity_failures ?st = length ds - remainingSlots L s" by simp
  from out show "srv_current (rows ?st) s = srv_max (rows ?st) s" by simp
next
  show "\<exists>schedule. all_returned (execute ds s schedule (issued L (length ds)))"
    using some_schedule_returns [OF issued_inv [OF assms(2,3)] assms(1)] .
qed

lemmas store_defs =
  execute_def call_step_def issued_def all_returned_def successes_def capacity_failures_def
  remainingSlots_def

theorem concurrent_assigns_witness:
  "successes (execute [10, 11, 12, 13] 0
                [0, 1, 2, 0, 3, 1, 0, 1, 2, 1, 3, 1, 2, 3, 2, 3, 2, 3, 3, 3]
            (issued \<lparr>srv_current = (\<lambda>s. 3), srv_max = (\<lambda>s. 5), assigned_to = (\<lambda>d. None)\<rparr> 4))
     = 2 \<and>
   calls (execute [10, 11, 12, 13] 0
            [0, 1, 2, 0, 3, 1, 0, 1, 2, 1, 3, 1, 2, 3, 2, 3, 2, 3, 3, 3]
            (issued \<lparr>srv_current = (\<lambda>s. 3), srv_max = (\<lambda>s. 5), assigned_to = (\<lambda>d. None)\<rparr> 4))
     = [Finished None, Finished None, Finished (Some ServerAtCapacity),
        Finished (Some ServerAtCapacity)] \<and>
   srv_current (rows (execute [10, 11, 12, 13] 0
                        [0, 1, 2, 0, 3, 1, 0, 1, 2, 1, 3, 1, 2, 3, 2, 3, 2, 3, 3, 3]
            (issued \<lparr>srv_current = (\<lambda>s. 3), srv_max = (\<lambda>s. 5), assigned_to = (\<lambda>d. None)\<rparr> 4)))
     0 = 5"
proof -
  define L :: ledger
    where "L = \<lparr>srv_current = (\<lambda>s. 3), srv_max = (\<lambda>s. 5), assigned_to = (\<lambda>d. None)\<rparr>"
  define st where "st = execute [10, 11, 12, 13] 0
      [0, 1, 2, 0, 3, 1, 0, 1, 2, 1, 3, 1, 2, 3, 2, 3, 2, 3, 3, 3]
      (issued L (length [10, 11, 12, 13::nat]))"
  have pre: "distinct [10, 11, 12, 13::nat]"
    "\<forall>d\<in>set [10, 11, 12, 13::nat]. assigned_to L d = None"
    "srv_current L 0 \<le> srv_max L 0"
    "remainingSlots L 0 < length [10, 11, 12, 13::nat]"
    by (simp_all add: remainingSlots_def L_def)
  have run: "calls st = [Finished None, Finished None, Finished (Some ServerAtCapacity),
        Finished (Some ServerAtCapacity)]"
    and final: "srv_current (rows st) 0 = 5"
    unfolding st_def L_def by (simp_all add: store_defs numeral_eq_Suc)
  then have "all_returned st"
    by (simp add: all_returned_def)
  with concurrent_assigns [OF pre, THEN conjunct1, rule_format,
      of "[0, 1, 2, 0, 3, 1, 0, 1, 2, 1, 3, 1, 2, 3, 2, 3, 2, 3, 3, 3]", folded st_def]
  have "successes st = remainingSlots L 0"
    by simp
  then have "successes st = 2"
    by (simp add: remainingSlots_def L_def)
  moreover have four: "(4::nat) = length [10, 11, 12, 13::nat]"
    by simp
  ultimately show ?thesis
    unfolding four L_def [symmetric] st_def [symmetric] using run final by simp
qed

end
